theory Spec2Isabelle
  imports Main "HOL-Library.Multiset"
begin

section \<open>Python values, exceptions and formatting\<close>

text \<open>
  The exceptions the program can meet.  \<open>except OSError\<close> catches every \<open>OSError _\<close>
  (refused connection, timeout, unreachable host or network are all subclasses of it),
  \<open>except requests.exceptions.RequestException\<close> catches every \<open>RequestException _\<close>.
\<close>

datatype os_error = ConnectionRefused | TimedOut | HostUnreachable | NetworkUnreachable | OtherOSError

datatype request_error = ConnectionError | Timeout | OtherRequestError

datatype exn =
    OSError os_error
  | RequestException request_error
  | RuntimeError
  | TypeError
  | ValueError
  | OverflowError

text \<open>A node is the dictionary \<^verbatim>\<open>{'address': address, 'port': port}\<close>; two
  dictionaries are equal when both entries are.\<close>

record node =
  address :: string
  port :: int

text \<open>What \<^verbatim>\<open>checkIP\<close> returns: \<^verbatim>\<open>False\<close> or the node dictionary.\<close>

datatype checked = PyFalse | PyDict node

text \<open>Truth value testing (\<^verbatim>\<open>if task.result():\<close>): the dictionary has two entries,
  so it is true.\<close>

fun truthy :: "checked \<Rightarrow> bool" where
  "truthy PyFalse = False"
| "truthy (PyDict n) = True"

text \<open>\<^verbatim>\<open>str(i)\<close> of an integer, as the f-strings format it.\<close>

definition digit :: "nat \<Rightarrow> char" where
  "digit d = ''0123456789'' ! d"

function str_nat :: "nat \<Rightarrow> string" where
  "str_nat n = (if n < 10 then [digit n] else str_nat (n div 10) @ [digit (n mod 10)])"
  by pat_completeness auto
termination
  by (relation "measure id") auto

definition str_int :: "int \<Rightarrow> string" where
  "str_int i = (if i < 0 then CHR ''-'' # str_nat (nat (- i)) else str_nat (nat i))"

text \<open>\<^verbatim>\<open>s.split(sep)\<close> for a one-character separator, and \<^verbatim>\<open>sep.join(parts)\<close>.\<close>

fun split :: "char \<Rightarrow> string \<Rightarrow> string list" where
  "split sep [] = [[]]"
| "split sep (c # cs) =
     (if c = sep then [] # split sep cs
      else (case split sep cs of
              [] \<Rightarrow> [[c]]
            | w # ws \<Rightarrow> (c # w) # ws))"

fun join :: "string \<Rightarrow> string list \<Rightarrow> string" where
  "join sep [] = []"
| "join sep [w] = w"
| "join sep (w # ws) = w @ sep @ join sep ws"


section \<open>The socket layer and the process state\<close>

text \<open>
  The \<^verbatim>\<open>socket\<close> module is not part of the program: what its calls do is a
  parameter.  Each call either returns (\<open>None\<close>) or raises (\<open>Some e\<close>);
  \<^verbatim>\<open>connect\<close> depends on the kind of socket, on the timeout the socket was created
  with, and on the \<open>(address, port)\<close> pair; \<^verbatim>\<open>close\<close> is the close of a
  connected stream socket.
\<close>

datatype sock_kind = SOCK_STREAM | SOCK_DGRAM

record sockets =
  sock_setdefaulttimeout :: "int \<Rightarrow> exn option"
  sock_socket :: "sock_kind \<Rightarrow> exn option"
  sock_connect :: "sock_kind \<Rightarrow> int option \<Rightarrow> string \<times> int \<Rightarrow> exn option"
  sock_close :: "exn option"
  sock_getsockname :: "string \<times> int"

text \<open>
  The state of the process outside any one call: \<^verbatim>\<open>socket.setdefaulttimeout\<close>
  stores the timeout every socket created afterwards starts with (\<open>None\<close> at start-up:
  no timeout).
\<close>

record process =
  defaulttimeout :: "int option"


section \<open>Worker\<close>

definition scanPort :: int where
  "scanPort = 5000"

text \<open>The handler \<^verbatim>\<open>except OSError: return False\<close>.\<close>

fun except_OSError :: "exn \<Rightarrow> exn + checked" where
  "except_OSError (OSError k) = Inr PyFalse"
| "except_OSError e = Inl e"

text \<open>
  \<^verbatim>\<open>Worker.checkIP\<close>.  The result is \<open>Inl e\<close> when the exception \<open>e\<close> leaves the
  call; the second component is the process state the call leaves behind.  The handler
  covers the three calls of the \<^verbatim>\<open>try\<close> block; \<^verbatim>\<open>sock.close()\<close> comes after
  it, so whatever it raises leaves the call.
\<close>

definition checkIP ::
  "sockets \<Rightarrow> string \<Rightarrow> int \<Rightarrow> int \<Rightarrow> 'a process_scheme \<Rightarrow> (exn + checked) \<times> 'a process_scheme" where
  "checkIP env addr prt timeout s =
     (case sock_setdefaulttimeout env timeout of
        Some e \<Rightarrow> (except_OSError e, s)
      | None \<Rightarrow>
          (let s' = s\<lparr>defaulttimeout := Some timeout\<rparr> in
           case sock_socket env SOCK_STREAM of
             Some e \<Rightarrow> (except_OSError e, s')
           | None \<Rightarrow>
               (case sock_connect env SOCK_STREAM (defaulttimeout s') (addr, prt) of
                  Some e \<Rightarrow> (except_OSError e, s')
                | None \<Rightarrow>
                    (case sock_close env of
                       Some e \<Rightarrow> (Inl e, s')
                     | None \<Rightarrow> (Inr (PyDict \<lparr>address = addr, port = prt\<rparr>), s')))))"

text \<open>\<^verbatim>\<open>Worker.localIP\<close>: a datagram socket, created with the default timeout in force,
  is connected to \<^verbatim>\<open>('10.0.0.0', 0)\<close>; nothing is caught.\<close>

definition localIP :: "sockets \<Rightarrow> 'a process_scheme \<Rightarrow> exn + string" where
  "localIP env s =
     (case sock_socket env SOCK_DGRAM of
        Some e \<Rightarrow> Inl e
      | None \<Rightarrow>
          (case sock_connect env SOCK_DGRAM (defaulttimeout s) (''10.0.0.0'', 0) of
             Some e \<Rightarrow> Inl e
           | None \<Rightarrow> Inr (fst (sock_getsockname env))))"

text \<open>
  \<^verbatim>\<open>Worker.scanLAN\<close>.  The executor runs one \<^verbatim>\<open>checkIP\<close> per submitted task;
  a task keeps what its call returned or raised.  The calls are taken in the order of
  submission (every one of them stores the same default timeout).
\<close>

fun submit_all ::
  "sockets \<Rightarrow> string list \<Rightarrow> int \<Rightarrow> int \<Rightarrow> 'a process_scheme
     \<Rightarrow> (exn + checked) list \<times> 'a process_scheme" where
  "submit_all env [] prt timeout s = ([], s)"
| "submit_all env (a # as) prt timeout s =
     (let (t, s1) = checkIP env a prt timeout s;
          (ts, s2) = submit_all env as prt timeout s1
      in (t # ts, s2))"

text \<open>
  The loop over the completed tasks: \<^verbatim>\<open>task.result()\<close> raises what the task raised,
  a true result is appended.
\<close>

fun collect :: "(exn + checked) list \<Rightarrow> node list \<Rightarrow> exn + node list" where
  "collect [] result = Inr result"
| "collect (Inl e # tasks) result = Inl e"
| "collect (Inr PyFalse # tasks) result = collect tasks result"
| "collect (Inr (PyDict n) # tasks) result = collect tasks (result @ [n])"

text \<open>
  \<^verbatim>\<open>concurrent.futures.as_completed\<close> hands the tasks over in the order in which they
  finish: \<open>as_completed\<close> is that reordering, a parameter.
\<close>

type_synonym completion = "(exn + checked) list \<Rightarrow> (exn + checked) list"

definition scanLAN ::
  "sockets \<Rightarrow> completion \<Rightarrow> int \<Rightarrow> string \<Rightarrow> int \<Rightarrow> 'a process_scheme
     \<Rightarrow> (exn + node list) \<times> 'a process_scheme" where
  "scanLAN env as_completed prt prefix timeout s =
     (let (tasks, s') =
            submit_all env (map (\<lambda>i. prefix @ ''.'' @ str_int i) [1..254]) prt timeout s
      in (collect (as_completed tasks) [], s'))"

text \<open>
  \<^verbatim>\<open>Worker.scanNodes\<close>.  The value is the argument of \<^verbatim>\<open>self.activeNodes.emit\<close>:
  \<open>Some nodes\<close> for a list, \<open>None\<close> for Python's \<^verbatim>\<open>None\<close>.  The defaults of
  \<^verbatim>\<open>scanLAN\<close> apply: timeout 1.
\<close>

definition scanNodes ::
  "sockets \<Rightarrow> completion \<Rightarrow> 'a process_scheme \<Rightarrow> (exn + node list option) \<times> 'a process_scheme" where
  "scanNodes env as_completed s =
     (case localIP env s of
        Inl e \<Rightarrow> (Inl e, s)
      | Inr ip \<Rightarrow>
          (let networkPrefix = join ''.'' (take 3 (split CHR ''.'' ip));
               (r, s') = scanLAN env as_completed scanPort networkPrefix 1 s
           in case r of
                Inl e \<Rightarrow> (Inl e, s')
              | Inr nodes \<Rightarrow> (Inr (if nodes \<noteq> [] then Some nodes else None), s')))"


section \<open>The HTTP layer\<close>

text \<open>
  The \<^verbatim>\<open>requests\<close> library is a parameter as well.  \<open>http_get api\<close> is what
  \<^verbatim>\<open>requests.get(api, timeout=1).json()\<close> returns or raises, \<open>http_post api command\<close>
  tells whether \<^verbatim>\<open>requests.post(api, json=command, timeout=5)\<close> raises.
\<close>

record http =
  http_get :: "string \<Rightarrow> exn + string"
  http_post :: "string \<Rightarrow> string \<Rightarrow> exn option"


section \<open>MainWindow\<close>

text \<open>
  A group box is a Qt object, held by reference: \<^verbatim>\<open>self.groupBoxes.remove(groupBox)\<close>
  and the closures of the buttons compare and keep references, and the check box and the
  name label are changed in place.  A reference is the number of the object in the order
  of creation.  Of a group box the program reads and writes the properties
  \<^verbatim>\<open>'address'\<close> and \<^verbatim>\<open>'port'\<close>, the check box (\<^verbatim>\<open>children()[1]\<close>), the text of
  the name label (\<^verbatim>\<open>children()[3]\<close>) and whether it is disabled.
\<close>

type_synonym ref = nat

record groupbox =
  property_address :: string
  property_port :: int
  checkbox :: bool
  nameLabel :: string
  disabled :: bool

text \<open>
  The window: the two lists of the class, the Qt objects that exist (a deleted object
  has no entry: every access to it raises \<^verbatim>\<open>RuntimeError\<close>), the number of objects
  made so far, the objects \<^verbatim>\<open>deleteLater\<close> was called on (the event loop deletes them
  when it runs next), and the disabled states of the tool bar and of the window.
\<close>

record mainwindow =
  nodes :: "node list"
  groupBoxes :: "ref list"
  objects :: "ref \<rightharpoonup> groupbox"
  created :: nat
  deferred :: "ref list"
  toolbar_disabled :: bool
  window_disabled :: bool

text \<open>
  What a method of the window does: it returns and leaves a window (\<open>Inr\<close>), or an
  exception leaves it (\<open>Inl\<close>) with the window as it is at that moment.
\<close>

type_synonym result = "exn \<times> mainwindow + mainwindow"

text \<open>The window a call leaves behind, whether it returned or raised.\<close>

definition after :: "result \<Rightarrow> mainwindow" where
  "after r = (case r of Inl (e, s) \<Rightarrow> s | Inr s \<Rightarrow> s)"

definition init :: mainwindow where
  "init = \<lparr>nodes = [], groupBoxes = [], objects = Map.empty, created = 0, deferred = [],
           toolbar_disabled = False, window_disabled = False\<rparr>"

text \<open>Back in the event loop, Qt deletes the objects scheduled by \<^verbatim>\<open>deleteLater\<close>.\<close>

definition event_loop :: "mainwindow \<Rightarrow> mainwindow" where
  "event_loop s =
     s\<lparr>objects := (\<lambda>r. if r \<in> set (deferred s) then None else objects s r), deferred := []\<rparr>"

text \<open>\<^verbatim>\<open>MainWindow.makeGroupBox\<close>: the label shows an em dash (three bytes in UTF-8), the
  check box is not checked.\<close>

definition makeGroupBox :: "node \<Rightarrow> groupbox" where
  "makeGroupBox n =
     \<lparr>property_address = address n, property_port = port n, checkbox = False,
      nameLabel = [CHR 0xE2, CHR 0x80, CHR 0x94], disabled = False\<rparr>"

text \<open>\<^verbatim>\<open>MainWindow.addGroupBox\<close>: the new box goes to the end of the list (and of the
  layout).\<close>

definition addGroupBox :: "node \<Rightarrow> mainwindow \<Rightarrow> mainwindow" where
  "addGroupBox n s =
     (let box = created s in
      s\<lparr>objects := (objects s)(box \<mapsto> makeGroupBox n),
        created := Suc box,
        groupBoxes := groupBoxes s @ [box]\<rparr>)"

text \<open>
  \<^verbatim>\<open>MainWindow.addNodes\<close>.  \<^verbatim>\<open>updateListSignal\<close> is connected to \<^verbatim>\<open>addGroupBox\<close> of
  the same object, so the slot runs inside \<^verbatim>\<open>emit\<close>.  The argument is a list
  (\<open>Some ns\<close>) or \<^verbatim>\<open>None\<close>: iterating over \<^verbatim>\<open>None\<close> raises \<^verbatim>\<open>TypeError\<close>.
\<close>

fun addNodes_loop :: "node list \<Rightarrow> mainwindow \<Rightarrow> mainwindow" where
  "addNodes_loop [] s = s"
| "addNodes_loop (n # ns) s =
     addNodes_loop ns
       (if n \<notin> set (nodes s) then addGroupBox n (s\<lparr>nodes := nodes s @ [n]\<rparr>) else s)"

definition addNodes :: "node list option \<Rightarrow> mainwindow \<Rightarrow> result" where
  "addNodes arg s =
     (case arg of
        None \<Rightarrow> Inl (TypeError, s)
      | Some ns \<Rightarrow> Inr ((addNodes_loop ns s)\<lparr>window_disabled := False\<rparr>))"

text \<open>
  \<^verbatim>\<open>MainWindow.removeGroupBox\<close>.  The loop over \<^verbatim>\<open>self.nodes\<close> stops at the first node
  with the address and removes the first node equal to it.
\<close>

definition remove_node :: "string \<Rightarrow> node list \<Rightarrow> node list" where
  "remove_node a ns =
     (case find (\<lambda>n. address n = a) ns of
        None \<Rightarrow> ns
      | Some n \<Rightarrow> remove1 n ns)"

definition removeGroupBox :: "ref \<Rightarrow> mainwindow \<Rightarrow> result" where
  "removeGroupBox groupBox s =
     (case objects s groupBox of
        None \<Rightarrow> Inl (RuntimeError, s)
      | Some g \<Rightarrow>
          if groupBox \<notin> set (groupBoxes s) then Inl (ValueError, s)
          else Inr (s\<lparr>groupBoxes := remove1 groupBox (groupBoxes s),
                      deferred := deferred s @ [groupBox],
                      nodes := remove_node (property_address g) (nodes s)\<rparr>))"

text \<open>
  \<^verbatim>\<open>MainWindow.disableGroupBoxes\<close> and \<^verbatim>\<open>MainWindow.toggleSelection\<close>: the bodies of
  these loops leave \<^verbatim>\<open>self.groupBoxes\<close> as it is, so they run over its elements in
  order.
\<close>

fun setDisabled_each :: "ref list \<Rightarrow> bool \<Rightarrow> mainwindow \<Rightarrow> result" where
  "setDisabled_each [] state s = Inr s"
| "setDisabled_each (box # boxes) state s =
     (case objects s box of
        None \<Rightarrow> Inl (RuntimeError, s)
      | Some g \<Rightarrow>
          setDisabled_each boxes state (s\<lparr>objects := (objects s)(box \<mapsto> g\<lparr>disabled := state\<rparr>)\<rparr>))"

definition disableGroupBoxes :: "bool \<Rightarrow> mainwindow \<Rightarrow> result" where
  "disableGroupBoxes state s = setDisabled_each (groupBoxes s) state s"

fun setChecked_each :: "ref list \<Rightarrow> bool \<Rightarrow> mainwindow \<Rightarrow> result" where
  "setChecked_each [] state s = Inr s"
| "setChecked_each (box # boxes) state s =
     (case objects s box of
        None \<Rightarrow> Inl (RuntimeError, s)
      | Some g \<Rightarrow>
          setChecked_each boxes state (s\<lparr>objects := (objects s)(box \<mapsto> g\<lparr>checkbox := state\<rparr>)\<rparr>))"

definition toggleSelection :: "bool \<Rightarrow> mainwindow \<Rightarrow> result" where
  "toggleSelection state s = setChecked_each (groupBoxes s) state s"

text \<open>
  \<^verbatim>\<open>MainWindow.machineControl\<close>.  The loop runs over \<^verbatim>\<open>self.groupBoxes\<close> itself
  while \<^verbatim>\<open>removeGroupBox\<close> takes elements out of it: Python's list iterator keeps an
  index, yields the element at the index as long as the index is inside the list as it
  is then, and moves on by one.  Only \<^verbatim>\<open>RequestException\<close> is caught.
\<close>

definition machine_control_api :: "groupbox \<Rightarrow> string" where
  "machine_control_api g =
     ''http://'' @ property_address g @ '':'' @ str_int (property_port g) @ ''/machine-control''"

function machineControl_loop :: "http \<Rightarrow> string \<Rightarrow> nat \<Rightarrow> mainwindow \<Rightarrow> result" where
  "machineControl_loop env command i s =
     (if i < length (groupBoxes s) then
        (let box = groupBoxes s ! i in
         case objects s box of
           None \<Rightarrow> Inl (RuntimeError, s)
         | Some g \<Rightarrow>
             if checkbox g then
               (let s1 = s\<lparr>objects := (objects s)(box \<mapsto> g\<lparr>disabled := True\<rparr>)\<rparr> in
                case http_post env (machine_control_api g) command of
                  Some (RequestException k) \<Rightarrow> machineControl_loop env command (i + 1) s1
                | Some e \<Rightarrow> Inl (e, s1)
                | None \<Rightarrow>
                    (case removeGroupBox box s1 of
                       Inl e \<Rightarrow> Inl e
                     | Inr s2 \<Rightarrow> machineControl_loop env command (i + 1) s2))
             else machineControl_loop env command (i + 1) s)
      else Inr s)"
  by pat_completeness auto
termination
proof (relation "measure (\<lambda>(env, command, i, s). length (groupBoxes s) - i)")
  show "wf (measure (\<lambda>(env, command, i, s). length (groupBoxes s) - i))"
    by simp
next
  fix env :: http and command :: string and i :: nat and s s2 :: mainwindow
    and box :: ref and g :: groupbox and s1 :: mainwindow
  assume i: "i < length (groupBoxes s)"
    and s1: "s1 = s\<lparr>objects := (objects s)(box \<mapsto> g\<lparr>disabled := True\<rparr>)\<rparr>"
    and rm: "removeGroupBox box s1 = Inr s2"
  from rm have "length (groupBoxes s2) \<le> length (groupBoxes s1)"
    by (auto simp: removeGroupBox_def length_remove1 split: option.splits if_splits)
  with i s1 show "((env, command, i + 1, s2), (env, command, i, s))
      \<in> measure (\<lambda>(env, command, i, s). length (groupBoxes s) - i)"
    by simp
qed auto

definition machineControl :: "http \<Rightarrow> string \<Rightarrow> mainwindow \<Rightarrow> result" where
  "machineControl env command s =
     (if length (groupBoxes s) = 0 then Inr s
      else
        (case disableGroupBoxes True (s\<lparr>toolbar_disabled := True\<rparr>) of
           Inl e \<Rightarrow> Inl e
         | Inr s1 \<Rightarrow>
             (case machineControl_loop env command 0 s1 of
                Inl e \<Rightarrow> Inl e
              | Inr s2 \<Rightarrow>
                  (case disableGroupBoxes False s2 of
                     Inl e \<Rightarrow> Inl e
                   | Inr s3 \<Rightarrow> Inr (s3\<lparr>toolbar_disabled := False\<rparr>)))))"

text \<open>
  \<^verbatim>\<open>MainWindow.updateNodeName\<close>, the slot of \<^verbatim>\<open>updateNodeNameSignal\<close>: the label is a
  child of its group box and is deleted with it; \<^verbatim>\<open>RuntimeError\<close> is passed over.
\<close>

definition updateNodeName :: "ref \<times> string \<Rightarrow> mainwindow \<Rightarrow> mainwindow" where
  "updateNodeName data s =
     (case objects s (fst data) of
        None \<Rightarrow> s
      | Some g \<Rightarrow> s\<lparr>objects := (objects s)(fst data \<mapsto> g\<lparr>nameLabel := snd data\<rparr>)\<rparr>)"

text \<open>
  \<^verbatim>\<open>MainWindow.checkNodeName\<close>: one pass of the \<^verbatim>\<open>for\<close> loop (its body leaves
  \<^verbatim>\<open>self.groupBoxes\<close> as it is), and the \<^verbatim>\<open>while True\<close> loop around it, which never
  returns: \<open>checkNodeName env n\<close> is the window after \<open>n\<close> passes.
\<close>

definition node_name_api :: "groupbox \<Rightarrow> string" where
  "node_name_api g =
     ''http://'' @ property_address g @ '':'' @ str_int (property_port g) @ ''/node-details/name''"

fun checkNodeName_each :: "http \<Rightarrow> ref list \<Rightarrow> mainwindow \<Rightarrow> result" where
  "checkNodeName_each env [] s = Inr s"
| "checkNodeName_each env (box # boxes) s =
     (case objects s box of
        None \<Rightarrow> checkNodeName_each env boxes s
      | Some g \<Rightarrow>
          (case http_get env (node_name_api g) of
             Inr name \<Rightarrow> checkNodeName_each env boxes (updateNodeName (box, name) s)
           | Inl (RequestException k) \<Rightarrow> checkNodeName_each env boxes s
           | Inl e \<Rightarrow> Inl (e, s)))"

definition checkNodeName_pass :: "http \<Rightarrow> mainwindow \<Rightarrow> result" where
  "checkNodeName_pass env s = checkNodeName_each env (groupBoxes s) s"

fun checkNodeName :: "http \<Rightarrow> nat \<Rightarrow> mainwindow \<Rightarrow> result" where
  "checkNodeName env 0 s = Inr s"
| "checkNodeName env (Suc n) s =
     (case checkNodeName_pass env s of
        Inl e \<Rightarrow> Inl e
      | Inr s' \<Rightarrow> checkNodeName env n s')"

text \<open>\<^verbatim>\<open>MainWindow.clearList\<close>: the loop runs over a copy of the list.\<close>

fun removeGroupBox_each :: "ref list \<Rightarrow> mainwindow \<Rightarrow> result" where
  "removeGroupBox_each [] s = Inr s"
| "removeGroupBox_each (box # boxes) s =
     (case removeGroupBox box s of
        Inl e \<Rightarrow> Inl e
      | Inr s' \<Rightarrow> removeGroupBox_each boxes s')"

definition clearList :: "mainwindow \<Rightarrow> result" where
  "clearList s =
     (case removeGroupBox_each (groupBoxes s) (s\<lparr>toolbar_disabled := True\<rparr>) of
        Inl e \<Rightarrow> Inl e
      | Inr s' \<Rightarrow> Inr (s'\<lparr>toolbar_disabled := False\<rparr>))"


text \<open>
  \<^verbatim>\<open>MainWindow.scanHandler\<close> and what it sets off: the window is disabled,
  \<^verbatim>\<open>workerSignal\<close> runs \<^verbatim>\<open>Worker.scanNodes\<close> in the worker thread, and
  \<^verbatim>\<open>activeNodes\<close> calls \<^verbatim>\<open>addNodes\<close> in the thread of the window (the connections
  made in \<^verbatim>\<open>__init__\<close>).  \<^verbatim>\<open>activeNodes\<close> is declared \<^verbatim>\<open>Signal(list)\<close>: what
  the slot receives for an emitted value is PySide6's conversion of it to the type of the
  signal and back, which is not part of the program: \<open>deliver\<close> is that conversion, a
  parameter.  An exception in \<^verbatim>\<open>scanNodes\<close> leaves the window disabled.
\<close>

type_synonym signal_list = "node list option \<Rightarrow> node list option"

definition scanHandler ::
  "sockets \<Rightarrow> completion \<Rightarrow> signal_list \<Rightarrow> 'a process_scheme \<Rightarrow> mainwindow
     \<Rightarrow> result \<times> 'a process_scheme" where
  "scanHandler env as_completed deliver p s =
     (let s1 = s\<lparr>window_disabled := True\<rparr>;
          (emitted, p') = scanNodes env as_completed p
      in case emitted of
           Inl e \<Rightarrow> (Inl (e, s1), p')
         | Inr arg \<Rightarrow> (addNodes (deliver arg) s1, p'))"

text \<open>The node dictionaries among the results of a list of tasks, in the order of the
  list.\<close>

fun dicts :: "(exn + checked) list \<Rightarrow> node list" where
  "dicts [] = []"
| "dicts (Inr (PyDict n) # ts) = n # dicts ts"
| "dicts (t # ts) = dicts ts"


text \<open>The nodes a pass of the loop of \<^verbatim>\<open>addNodes\<close> appends, given the nodes already known.\<close>

fun fresh :: "node list \<Rightarrow> node list \<Rightarrow> node list" where
  "fresh [] known = []"
| "fresh (n # ns) known =
     (if n \<in> set known then fresh ns known else n # fresh ns (known @ [n]))"


section \<open>The registry as its users see it\<close>

text \<open>
  What a pass over \<^verbatim>\<open>self.groupBoxes\<close> reads, and what the layout shows: the group
  boxes that exist, in the order of the list, each with its address, port, check box and
  name.
\<close>

definition snapshot :: "mainwindow \<Rightarrow> groupbox list" where
  "snapshot s = List.map_filter (objects s) (groupBoxes s)"

text \<open>
  The operations on the window, as they run one after the other: the slot of
  \<^verbatim>\<open>activeNodes\<close> with a list of nodes, the Remove button of a group box, the Toggle
  Selection, Clear List, Reboot and Shutdown actions, and a pass of the name check.  Each
  leaves a window behind, whether it returned or raised; between two of them the event
  loop deletes the objects scheduled for deletion.  (Should the program stop at an
  exception instead of going on, the window it stops with is the window after a shorter
  sequence.)
\<close>

datatype operation =
    Merge "node list"
  | Remove ref
  | Toggle bool
  | Clear
  | Dispatch http string
  | Refresh http

fun perform :: "operation \<Rightarrow> mainwindow \<Rightarrow> result" where
  "perform (Merge ns) s = addNodes (Some ns) s"
| "perform (Remove box) s = removeGroupBox box s"
| "perform (Toggle state) s = toggleSelection state s"
| "perform Clear s = clearList s"
| "perform (Dispatch env command) s = machineControl env command s"
| "perform (Refresh env) s = checkNodeName_pass env s"

fun run :: "operation list \<Rightarrow> mainwindow \<Rightarrow> mainwindow" where
  "run [] s = s"
| "run (x # xs) s = run xs (event_loop (after (perform x s)))"

text \<open>
  The states the window can be in: the group boxes of the list are numbered in the order
  of their creation, they exist and are not scheduled for deletion (what is scheduled has
  been created), and the addresses of \<^verbatim>\<open>self.nodes\<close> are, with their multiplicities,
  the addresses of the group boxes.
\<close>

definition consistent :: "mainwindow \<Rightarrow> bool" where
  "consistent s \<longleftrightarrow>
     sorted_wrt (<) (groupBoxes s) \<and>
     (\<forall>box \<in> set (groupBoxes s).
        box < created s \<and> objects s box \<noteq> None \<and> box \<notin> set (deferred s)) \<and>
     (\<forall>box \<in> set (deferred s). box < created s) \<and>
     mset (map address (nodes s)) = mset (map property_address (snapshot s))"


text \<open>
  From one state of the window to a later one: group boxes are created with the next
  numbers, and no group box comes back into the list.
\<close>

definition later :: "mainwindow \<Rightarrow> mainwindow \<Rightarrow> bool" where
  "later s s' \<longleftrightarrow>
     created s \<le> created s' \<and>
     set (groupBoxes s') \<subseteq> set (groupBoxes s) \<union> {created s ..< created s'}"

text \<open>
  The changes the methods make to the window, one after the other: a group box gets
  another look (check box, label, disabled) and keeps its address; the tool bar or the
  window is disabled or enabled; \<^verbatim>\<open>addNodes\<close> appends a node and its new group box;
  \<^verbatim>\<open>removeGroupBox\<close> returns; the event loop deletes what is scheduled for deletion.
\<close>

inductive changes :: "mainwindow \<Rightarrow> mainwindow \<Rightarrow> bool" where
  unchanged: "changes s s"
| box_updated: "changes s s' \<Longrightarrow> objects s' box = Some g \<Longrightarrow>
    property_address g' = property_address g \<Longrightarrow>
    changes s (s'\<lparr>objects := (objects s')(box \<mapsto> g')\<rparr>)"
| toolbar_set: "changes s s' \<Longrightarrow> changes s (s'\<lparr>toolbar_disabled := b\<rparr>)"
| window_set: "changes s s' \<Longrightarrow> changes s (s'\<lparr>window_disabled := b\<rparr>)"
| box_added: "changes s s' \<Longrightarrow> changes s (addGroupBox n (s'\<lparr>nodes := nodes s' @ [n]\<rparr>))"
| box_removed: "changes s s' \<Longrightarrow> removeGroupBox box s' = Inr s'' \<Longrightarrow> changes s s''"
| objects_deleted: "changes s s' \<Longrightarrow> changes s (event_loop s')"

text \<open>The exceptions \<^verbatim>\<open>except OSError\<close> catches; a call of the socket layer that
  returns or raises one of them; the addresses \<^verbatim>\<open>scanLAN\<close> submits.\<close>

fun is_OSError :: "exn \<Rightarrow> bool" where
  "is_OSError (OSError k) = True"
| "is_OSError e = False"

definition only_OSError :: "exn option \<Rightarrow> bool" where
  "only_OSError r = (case r of None \<Rightarrow> True | Some e \<Rightarrow> is_OSError e)"

definition scanLAN_addresses :: "string \<Rightarrow> string list" where
  "scanLAN_addresses prefix = map (\<lambda>i. prefix @ ''.'' @ str_int i) [1..254]"


section \<open>Concrete networks and windows used to instantiate the theorems\<close>

text \<open>A network where only \<^verbatim>\<open>10.0.0.5\<close> and \<^verbatim>\<open>10.0.0.9\<close> accept a connection on port
  5000; every other connection is refused.\<close>

definition lan :: sockets where
  "lan = \<lparr>sock_setdefaulttimeout = (\<lambda>t. None),
          sock_socket = (\<lambda>k. None),
          sock_connect = (\<lambda>k t (a, p).
             if (a = ''10.0.0.5'' \<or> a = ''10.0.0.9'') \<and> p = 5000 then None
             else Some (OSError ConnectionRefused)),
          sock_close = None,
          sock_getsockname = (''10.0.0.17'', 40000)\<rparr>"

text \<open>A network where every connection to a host times out.\<close>

definition dead_lan :: sockets where
  "dead_lan = \<lparr>sock_setdefaulttimeout = (\<lambda>t. None),
               sock_socket = (\<lambda>k. None),
               sock_connect = (\<lambda>k t (a, p).
                  if k = SOCK_DGRAM then None else Some (OSError TimedOut)),
               sock_close = None,
               sock_getsockname = (''10.0.0.17'', 40000)\<rparr>"

definition startup :: process where
  "startup = \<lparr>defaulttimeout = None\<rparr>"


text \<open>
  A socket layer that checks its arguments the way CPython's does before it connects: a
  negative timeout raises \<^verbatim>\<open>ValueError\<close>, a port outside 0..65535 raises
  \<^verbatim>\<open>OverflowError\<close>; on its network \<^verbatim>\<open>10.0.0.5\<close> and \<^verbatim>\<open>10.0.0.9\<close> accept a
  connection on port 5000.
\<close>

definition cpython :: sockets where
  "cpython = \<lparr>sock_setdefaulttimeout = (\<lambda>t. if t < 0 then Some ValueError else None),
              sock_socket = (\<lambda>k. None),
              sock_connect = (\<lambda>k t (a, p).
                 if p < 0 \<or> 65535 < p then Some OverflowError
                 else if (a = ''10.0.0.5'' \<or> a = ''10.0.0.9'') \<and> p = 5000 then None
                 else Some (OSError ConnectionRefused)),
              sock_close = None,
              sock_getsockname = (''10.0.0.17'', 40000)\<rparr>"


text \<open>Three nodes on the scan port.\<close>

definition node_a :: node where
  "node_a = \<lparr>address = ''10.0.0.5'', port = 5000\<rparr>"

definition node_b :: node where
  "node_b = \<lparr>address = ''10.0.0.2'', port = 5000\<rparr>"

definition node_c :: node where
  "node_c = \<lparr>address = ''10.0.0.9'', port = 5000\<rparr>"

text \<open>Nodes that answer every request; \<^verbatim>\<open>10.0.0.5\<close> is called \<^verbatim>\<open>server-1\<close>.\<close>

definition all_answer :: http where
  "all_answer = \<lparr>http_get = (\<lambda>api. Inr ''server-1''), http_post = (\<lambda>api command. None)\<rparr>"

text \<open>Nodes of which only \<^verbatim>\<open>10.0.0.5\<close> answers; every other request times out.\<close>

definition only_a_answers :: http where
  "only_a_answers =
     \<lparr>http_get = (\<lambda>api. if api = ''http://10.0.0.5:5000/node-details/name'' then Inr ''server-1''
                         else Inl (RequestException Timeout)),
      http_post = (\<lambda>api command. if api = ''http://10.0.0.5:5000/machine-control'' then None
                         else Some (RequestException Timeout))\<rparr>"


text \<open>The window after a first scan that found the three nodes.\<close>

definition window_abc :: mainwindow where
  "window_abc = after (addNodes (Some [node_a, node_b, node_c]) init)"

text \<open>The window after a scan that found two nodes, with both of them selected.\<close>

definition window_ab_selected :: mainwindow where
  "window_ab_selected =
     after (toggleSelection True (after (addNodes (Some [node_a, node_b]) init)))"

text \<open>The window with the three nodes, the first and the third selected.\<close>

definition window_abc_ac_selected :: mainwindow where
  "window_abc_ac_selected =
     window_abc\<lparr>objects := (objects window_abc)
        (0 \<mapsto> (makeGroupBox node_a)\<lparr>checkbox := True\<rparr>,
         2 \<mapsto> (makeGroupBox node_c)\<lparr>checkbox := True\<rparr>)\<rparr>"

declare str_nat.simps [simp del]
declare machineControl_loop.simps [simp del]


section \<open>The probe\<close>

lemma except_OSError_iff:
  "except_OSError e = (if is_OSError e then Inr PyFalse else Inl e)"
  by (cases e) simp_all

lemma fst_checkIP:
  "fst (checkIP env addr prt timeout s) =
     (case sock_setdefaulttimeout env timeout of
        Some e \<Rightarrow> except_OSError e
      | None \<Rightarrow>
          (case sock_socket env SOCK_STREAM of
             Some e \<Rightarrow> except_OSError e
           | None \<Rightarrow>
               (case sock_connect env SOCK_STREAM (Some timeout) (addr, prt) of
                  Some e \<Rightarrow> except_OSError e
                | None \<Rightarrow>
                    (case sock_close env of
                       Some e \<Rightarrow> Inl e
                     | None \<Rightarrow> Inr (PyDict \<lparr>address = addr, port = prt\<rparr>)))))"
  by (simp add: checkIP_def Let_def split: option.splits)

lemma snd_checkIP:
  "snd (checkIP env addr prt timeout s) =
     (if sock_setdefaulttimeout env timeout = None then s\<lparr>defaulttimeout := Some timeout\<rparr> else s)"
  by (simp add: checkIP_def Let_def split: option.splits)

text \<open>
  Claim C4, as stated, fails: only \<^verbatim>\<open>OSError\<close> is caught.  On a socket layer that checks
  its arguments as CPython's does, the probe of port 70000 raises \<^verbatim>\<open>OverflowError\<close> and
  the probe with timeout -1 raises \<^verbatim>\<open>ValueError\<close>.
\<close>

theorem checkIP_raises_counterexample:
  "fst (checkIP cpython ''10.0.0.5'' 70000 1 startup) = Inl OverflowError \<and>
   fst (checkIP cpython ''10.0.0.5'' 5000 (- 1) startup) = Inl ValueError"
  by (simp add: fst_checkIP cpython_def)

text \<open>
  Claim C4, amended.  For every address, port and timeout, when each of the calls
  \<^verbatim>\<open>setdefaulttimeout\<close>, \<^verbatim>\<open>socket\<close> and \<^verbatim>\<open>connect\<close> returns or fails with a connection
  error (an \<^verbatim>\<open>OSError\<close>: refused, timed out, host or network unreachable) and
  \<^verbatim>\<open>close\<close> returns, \<^verbatim>\<open>checkIP\<close> raises nothing and returns a value whose truth value
  is the reachability: the node dictionary (true) when the connection was made,
  \<^verbatim>\<open>False\<close> when one of the calls failed.  And \<^verbatim>\<open>checkIP\<close> raises exactly when the
  first failing call of the three raises an exception that is not an \<^verbatim>\<open>OSError\<close> (that
  exception), or when the three return and \<^verbatim>\<open>close\<close> raises.
\<close>

theorem checkIP_connection_errors:
  "(only_OSError (sock_setdefaulttimeout env timeout) \<and>
    only_OSError (sock_socket env SOCK_STREAM) \<and>
    only_OSError (sock_connect env SOCK_STREAM (Some timeout) (addr, prt)) \<and>
    sock_close env = None \<longrightarrow>
      (\<exists>v. fst (checkIP env addr prt timeout s) = Inr v \<and>
         (truthy v \<longleftrightarrow>
            sock_setdefaulttimeout env timeout = None \<and> sock_socket env SOCK_STREAM = None \<and>
            sock_connect env SOCK_STREAM (Some timeout) (addr, prt) = None) \<and>
         (truthy v \<longrightarrow> v = PyDict \<lparr>address = addr, port = prt\<rparr>) \<and>
         (\<not> truthy v \<longrightarrow> v = PyFalse))) \<and>
   (fst (checkIP env addr prt timeout s) = Inl e \<longleftrightarrow>
      sock_setdefaulttimeout env timeout = Some e \<and> \<not> is_OSError e \<or>
      sock_setdefaulttimeout env timeout = None \<and> sock_socket env SOCK_STREAM = Some e \<and>
        \<not> is_OSError e \<or>
      sock_setdefaulttimeout env timeout = None \<and> sock_socket env SOCK_STREAM = None \<and>
        sock_connect env SOCK_STREAM (Some timeout) (addr, prt) = Some e \<and> \<not> is_OSError e \<or>
      sock_setdefaulttimeout env timeout = None \<and> sock_socket env SOCK_STREAM = None \<and>
        sock_connect env SOCK_STREAM (Some timeout) (addr, prt) = None \<and> sock_close env = Some e)"
  by (auto simp: fst_checkIP except_OSError_iff only_OSError_def split: option.splits)

theorem checkIP_connection_errors_witness:
  "fst (checkIP cpython ''10.0.0.5'' 5000 1 startup) = Inr (PyDict \<lparr>address = ''10.0.0.5'', port = 5000\<rparr>) \<and>
   fst (checkIP cpython ''10.0.0.7'' 5000 1 startup) = Inr PyFalse \<and>
   fst (checkIP dead_lan ''10.0.0.5'' 5000 1 startup) = Inr PyFalse \<and>
   fst (checkIP cpython ''10.0.0.5'' 70000 1 startup) = Inl OverflowError"
  using checkIP_connection_errors [of cpython 1 "''10.0.0.5''" 5000 startup]
    checkIP_connection_errors [of cpython 1 "''10.0.0.7''" 5000 startup]
    checkIP_connection_errors [of dead_lan 1 "''10.0.0.5''" 5000 startup]
    checkIP_connection_errors [of cpython 1 "''10.0.0.5''" 70000 startup OverflowError]
  by (simp add: cpython_def dead_lan_def only_OSError_def fst_checkIP)

text \<open>
  Claim C9, as stated, fails: the call stores its timeout in the state of the process.
  At start-up no default timeout is set; after one probe with timeout 1 the default
  timeout of the process is 1.
\<close>

theorem checkIP_global_timeout_counterexample:
  "defaulttimeout startup = None \<and>
   defaulttimeout (snd (checkIP lan ''10.0.0.5'' 5000 1 startup)) = Some 1"
  by (simp add: snd_checkIP lan_def startup_def)

text \<open>
  Claim C9, amended.  The timeout is supplied by the caller on every call and is applied
  through the state of the process: a call whose \<^verbatim>\<open>setdefaulttimeout\<close> returns leaves
  the default timeout of the process at the supplied value and changes nothing else of
  the process state (the statement holds for every extension of the state record); a call
  whose \<^verbatim>\<open>setdefaulttimeout\<close> raises changes nothing.
\<close>

theorem checkIP_sets_default_timeout:
  "snd (checkIP env addr prt timeout s) =
     (if sock_setdefaulttimeout env timeout = None then s\<lparr>defaulttimeout := Some timeout\<rparr> else s)"
  by (rule snd_checkIP)


section \<open>The scanner\<close>







lemma length_scanLAN_addresses: "length (scanLAN_addresses prefix) = 254"
  by (simp add: scanLAN_addresses_def)




lemma scanLAN_alt:
  "scanLAN env as_completed prt prefix timeout s =
     (let (tasks, s') = submit_all env (scanLAN_addresses prefix) prt timeout s
      in (collect (as_completed tasks) [], s'))"
  by (simp only: scanLAN_def scanLAN_addresses_def)

lemma fst_submit_all:
  "fst (submit_all env as prt timeout s) = map (\<lambda>a. fst (checkIP env a prt timeout s)) as"
proof (induction as arbitrary: s)
  case Nil
  show ?case by simp
next
  case (Cons a as)
  have "fst (submit_all env as prt timeout (snd (checkIP env a prt timeout s)))
      = map (\<lambda>a. fst (checkIP env a prt timeout s)) as"
    by (simp add: Cons.IH fst_checkIP)
  then show ?case
    by (simp add: split_beta Let_def)
qed

lemma snd_submit_all:
  "snd (submit_all env as prt timeout s) =
     (if as \<noteq> [] \<and> sock_setdefaulttimeout env timeout = None
      then s\<lparr>defaulttimeout := Some timeout\<rparr> else s)"
  by (induction as arbitrary: s) (simp_all add: split_beta Let_def snd_checkIP)

lemma fst_scanLAN:
  "fst (scanLAN env as_completed prt prefix timeout s) =
     collect (as_completed (map (\<lambda>a. fst (checkIP env a prt timeout s)) (scanLAN_addresses prefix))) []"
  using fst_submit_all [of env "scanLAN_addresses prefix" prt timeout s]
  by (simp add: scanLAN_alt split_beta Let_def)








lemma snd_scanLAN:
  "snd (scanLAN env as_completed prt prefix timeout s) =
     (if sock_setdefaulttimeout env timeout = None then s\<lparr>defaulttimeout := Some timeout\<rparr> else s)"
proof -
  have "scanLAN_addresses prefix \<noteq> []"
    using length_scanLAN_addresses [of prefix] by auto
  then show ?thesis
    using snd_submit_all [of env "scanLAN_addresses prefix" prt timeout s]
    by (simp add: scanLAN_alt split_beta Let_def)
qed








section \<open>The scan and its signal\<close>

lemma fst_scanNodes:
  "fst (scanNodes env as_completed p) =
     (case localIP env p of
        Inl e \<Rightarrow> Inl e
      | Inr ip \<Rightarrow>
          (case fst (scanLAN env as_completed scanPort (join ''.'' (take 3 (split CHR ''.'' ip))) 1 p) of
             Inl e \<Rightarrow> Inl e
           | Inr ns \<Rightarrow> Inr (if ns \<noteq> [] then Some ns else None)))"
  by (simp add: scanNodes_def split_beta Let_def split: sum.splits)


lemma set_dicts: "n \<in> set (dicts ts) \<longleftrightarrow> Inr (PyDict n) \<in> set ts"
  by (induction ts rule: dicts.induct) auto

lemma collect_set: "collect ts acc = Inr result \<Longrightarrow> set result \<subseteq> set acc \<union> set (dicts ts)"
  by (induction ts acc arbitrary: result rule: collect.induct) auto

text \<open>Every node a scan finds carries the port of the scan.\<close>

lemma scanLAN_ports:
  assumes perm: "\<And>ts. mset (as_completed ts) = mset ts"
    and scan: "fst (scanLAN env as_completed prt prefix timeout s) = Inr result"
  shows "\<forall>n \<in> set result. port n = prt"
proof
  fix n assume "n \<in> set result"
  let ?tasks = "map (\<lambda>a. fst (checkIP env a prt timeout s)) (scanLAN_addresses prefix)"
  from scan have "set result \<subseteq> set (dicts (as_completed ?tasks))"
    using collect_set [of "as_completed ?tasks" "[]" result] by (simp add: fst_scanLAN)
  with \<open>n \<in> set result\<close> have "Inr (PyDict n) \<in> set (as_completed ?tasks)"
    by (auto simp: set_dicts)
  then have "Inr (PyDict n) \<in> set ?tasks"
    using perm [of ?tasks] by (metis set_mset_mset)
  then obtain a where "fst (checkIP env a prt timeout s) = Inr (PyDict n)" by auto
  then show "port n = prt"
    by (auto simp: fst_checkIP except_OSError_iff split: option.splits if_splits)
qed

lemma scanNodes_ports:
  assumes "\<And>ts. mset (as_completed ts) = mset ts"
    and "fst (scanNodes env as_completed p) = Inr (Some ns)"
  shows "\<forall>n \<in> set ns. port n = scanPort"
proof -
  from assms(2) obtain ip where
    "fst (scanLAN env as_completed scanPort (join ''.'' (take 3 (split CHR ''.'' ip))) 1 p) = Inr ns"
    by (auto simp: fst_scanNodes split: sum.splits if_splits)
  with assms(1) show ?thesis by (rule scanLAN_ports)
qed



text \<open>Should the signal hand \<^verbatim>\<open>None\<close> itself to the slot, \<^verbatim>\<open>addNodes\<close> raises
  \<^verbatim>\<open>TypeError\<close> and the window stays disabled.\<close>

lemma scanHandler_None_delivered:
  assumes "fst (scanNodes env as_completed p) = Inr None" and "deliver None = None"
  shows "fst (scanHandler env as_completed deliver p s) = Inl (TypeError, s\<lparr>window_disabled := True\<rparr>)"
  using assms by (simp add: scanHandler_def split_beta Let_def addNodes_def split: sum.splits)


section \<open>Merging nodes\<close>

lemma set_fresh: "set (fresh ns known) = set ns - set known"
  by (induction ns arbitrary: known) auto

lemma distinct_fresh: "distinct (fresh ns known)"
  by (induction ns arbitrary: known) (auto simp: set_fresh)

lemma fresh_known: "set ns \<subseteq> set known \<Longrightarrow> fresh ns known = []"
  by (induction ns arbitrary: known) auto

lemma nodes_addNodes_loop: "nodes (addNodes_loop ns s) = nodes s @ fresh ns (nodes s)"
  by (induction ns arbitrary: s) (auto simp: addGroupBox_def Let_def)

lemma created_addNodes_loop:
  "created (addNodes_loop ns s) = created s + length (fresh ns (nodes s))"
  by (induction ns arbitrary: s) (auto simp: addGroupBox_def Let_def)

lemma groupBoxes_addNodes_loop:
  "groupBoxes (addNodes_loop ns s) =
     groupBoxes s @ [created s ..< created s + length (fresh ns (nodes s))]"
proof (induction ns arbitrary: s)
  case Nil
  show ?case by simp
next
  case (Cons n ns)
  show ?case
  proof (cases "n \<in> set (nodes s)")
    case True
    then show ?thesis by (simp add: Cons.IH)
  next
    case False
    let ?s1 = "addGroupBox n (s\<lparr>nodes := nodes s @ [n]\<rparr>)"
    let ?k = "length (fresh ns (nodes s @ [n]))"
    have s1: "groupBoxes ?s1 = groupBoxes s @ [created s]" "created ?s1 = Suc (created s)"
      "nodes ?s1 = nodes s @ [n]"
      by (simp_all add: addGroupBox_def Let_def)
    have "groupBoxes (addNodes_loop (n # ns) s) = groupBoxes (addNodes_loop ns ?s1)"
      using False by simp
    also have "\<dots> = (groupBoxes s @ [created s]) @ [Suc (created s) ..< Suc (created s) + ?k]"
      unfolding Cons.IH s1 ..
    also have "\<dots> = groupBoxes s @ [created s ..< created s + Suc ?k]"
      by (subst (2) upt_rec) simp
    finally show ?thesis
      using False by simp
  qed
qed

lemma objects_addNodes_loop:
  "objects (addNodes_loop ns s) box =
     (if created s \<le> box \<and> box < created s + length (fresh ns (nodes s))
      then Some (makeGroupBox (fresh ns (nodes s) ! (box - created s)))
      else objects s box)"
proof (induction ns arbitrary: s)
  case Nil
  show ?case by auto
next
  case (Cons n ns)
  show ?case
  proof (cases "n \<in> set (nodes s)")
    case True
    then show ?thesis by (simp add: Cons.IH)
  next
    case False
    then show ?thesis
      by (auto simp: Cons.IH addGroupBox_def Let_def nth_Cons')
  qed
qed

lemma rest_addNodes_loop:
  "deferred (addNodes_loop ns s) = deferred s \<and>
   toolbar_disabled (addNodes_loop ns s) = toolbar_disabled s \<and>
   window_disabled (addNodes_loop ns s) = window_disabled s"
  by (induction ns arbitrary: s) (auto simp: addGroupBox_def Let_def)

lemma addNodes_loop_known: "set ns \<subseteq> set (nodes s) \<Longrightarrow> addNodes_loop ns s = s"
  by (induction ns arbitrary: s) auto

lemma new_objects_addNodes_loop:
  "map (objects (addNodes_loop ns s)) [created s ..< created s + length (fresh ns (nodes s))] =
     map (\<lambda>n. Some (makeGroupBox n)) (fresh ns (nodes s))"
  by (rule nth_equalityI) (simp_all add: objects_addNodes_loop)

lemma remdups_snoc: "remdups (ys @ [x]) = remdups (filter (\<lambda>y. y \<noteq> x) ys) @ [x]"
  by (induction ys) auto

lemma first_occurrences_Cons:
  "rev (remdups (rev (x # xs))) = x # rev (remdups (rev (filter (\<lambda>y. y \<noteq> x) xs)))"
  by (simp add: remdups_snoc rev_filter)

lemma fresh_first_occurrences:
  "fresh ns known = rev (remdups (rev (filter (\<lambda>n. n \<notin> set known) ns)))"
proof (induction ns arbitrary: known)
  case Nil
  show ?case by simp
next
  case (Cons n ns)
  show ?case
  proof (cases "n \<in> set known")
    case True
    then show ?thesis by (simp add: Cons.IH)
  next
    case False
    have "filter (\<lambda>y. y \<noteq> n) (filter (\<lambda>n. n \<notin> set known) ns)
        = filter (\<lambda>m. m \<notin> set (known @ [n])) ns"
      by (auto intro: filter_cong)
    with False show ?thesis
      by (simp add: Cons.IH first_occurrences_Cons del: rev.simps remdups.simps)
  qed
qed

text \<open>\<^verbatim>\<open>addNodes\<close> appends the incoming dictionaries that are not in
  \<^verbatim>\<open>self.nodes\<close>, each once, in the order of their first occurrence.\<close>

lemma addNodes_by_dictionary:
  "\<exists>s' new. addNodes (Some ns) s = Inr s' \<and>
     new = rev (remdups (rev (filter (\<lambda>n. n \<notin> set (nodes s)) ns))) \<and>
     distinct new \<and> set new = set ns - set (nodes s) \<and>
     nodes s' = nodes s @ new \<and>
     groupBoxes s' = groupBoxes s @ [created s ..< created s + length new] \<and>
     map (objects s') [created s ..< created s + length new] = map (\<lambda>n. Some (makeGroupBox n)) new \<and>
     (set ns \<subseteq> set (nodes s) \<longrightarrow>
        nodes s' = nodes s \<and> groupBoxes s' = groupBoxes s \<and> objects s' = objects s) \<and>
     addNodes (Some ns) s' = Inr s'"
proof -
  let ?new = "fresh ns (nodes s)"
  let ?s' = "(addNodes_loop ns s)\<lparr>window_disabled := False\<rparr>"
  have 1: "addNodes (Some ns) s = Inr ?s'"
    by (simp add: addNodes_def)
  have 2: "?new = rev (remdups (rev (filter (\<lambda>n. n \<notin> set (nodes s)) ns)))"
    by (rule fresh_first_occurrences)
  have 3: "distinct ?new" "set ?new = set ns - set (nodes s)"
    by (simp_all add: distinct_fresh set_fresh)
  have 4: "nodes ?s' = nodes s @ ?new"
    by (simp add: nodes_addNodes_loop)
  have 5: "groupBoxes ?s' = groupBoxes s @ [created s ..< created s + length ?new]"
    by (simp add: groupBoxes_addNodes_loop)
  have 6: "map (objects ?s') [created s ..< created s + length ?new]
      = map (\<lambda>n. Some (makeGroupBox n)) ?new"
    using new_objects_addNodes_loop [of ns s] by simp
  have 7: "nodes ?s' = nodes s \<and> groupBoxes ?s' = groupBoxes s \<and> objects ?s' = objects s"
    if "set ns \<subseteq> set (nodes s)"
    using that by (simp add: addNodes_loop_known)
  have "set ns \<subseteq> set (nodes ?s')"
    using 3(2) 4 by auto
  then have "addNodes_loop ns ?s' = ?s'"
    by (rule addNodes_loop_known)
  then have 8: "addNodes (Some ns) ?s' = Inr ?s'"
    by (simp add: addNodes_def)
  from 1 2 3 4 5 6 7 8 show ?thesis
    by blast
qed

text \<open>Where all nodes carry one port, a dictionary is known when its address is.\<close>

lemma one_port_known:
  assumes "\<forall>m \<in> set known. port m = p" and "port n = p"
  shows "(n :: node) \<in> set known \<longleftrightarrow> address n \<in> address ` set known"
proof
  assume "address n \<in> address ` set known"
  then obtain m where m: "m \<in> set known" "address m = address n" by auto
  with assms have "port m = port n" by simp
  with m(2) have "m = n" by (cases m, cases n) simp
  with m(1) show "n \<in> set known" by simp
qed simp

text \<open>
  Claim C2.  Every node carries the port of the scan (\<^verbatim>\<open>scanLAN\<close> is called with
  \<^verbatim>\<open>self.scanPort\<close> only: lemma \<open>scanNodes_ports\<close>).  For every window whose nodes
  carry one port and every incoming list of nodes of that port: the nodes newly added
  (appended to \<^verbatim>\<open>self.nodes\<close> and announced by \<^verbatim>\<open>updateListSignal\<close>, each getting
  a new group box at the end of the list) are exactly the incoming nodes whose address was
  not in the registry before, one for each such address, in the order of their first
  occurrence; merging nodes whose addresses are all present changes neither list nor any
  group box; no address comes to be in the registry twice; and merging the same list a
  second time changes nothing.
\<close>

theorem addNodes_merge:
  assumes "\<forall>n \<in> set (nodes s). port n = p" and "\<forall>n \<in> set ns. port n = p"
  shows "\<exists>s' new. addNodes (Some ns) s = Inr s' \<and>
     new = rev (remdups (rev (filter (\<lambda>n. address n \<notin> address ` set (nodes s)) ns))) \<and>
     set new = {n \<in> set ns. address n \<notin> address ` set (nodes s)} \<and>
     distinct (map address new) \<and>
     nodes s' = nodes s @ new \<and>
     groupBoxes s' = groupBoxes s @ [created s ..< created s + length new] \<and>
     map (objects s') [created s ..< created s + length new] = map (\<lambda>n. Some (makeGroupBox n)) new \<and>
     ((\<forall>n \<in> set ns. address n \<in> address ` set (nodes s)) \<longrightarrow>
        nodes s' = nodes s \<and> groupBoxes s' = groupBoxes s \<and> objects s' = objects s) \<and>
     (distinct (map address (nodes s)) \<longrightarrow> distinct (map address (nodes s'))) \<and>
     (\<forall>n \<in> set (nodes s'). port n = p) \<and>
     addNodes (Some ns) s' = Inr s'"
proof -
  have known: "n \<in> set (nodes s) \<longleftrightarrow> address n \<in> address ` set (nodes s)" if "n \<in> set ns" for n
    using assms that by (intro one_port_known) auto
  have filter: "filter (\<lambda>n. n \<notin> set (nodes s)) ns
      = filter (\<lambda>n. address n \<notin> address ` set (nodes s)) ns"
    by (rule filter_cong [OF refl]) (simp add: known)
  from addNodes_by_dictionary [of ns s] obtain s' new
    where s': "addNodes (Some ns) s = Inr s'"
      and new: "new = rev (remdups (rev (filter (\<lambda>n. n \<notin> set (nodes s)) ns)))"
      and dist: "distinct new" and set: "set new = set ns - set (nodes s)"
      and nodes: "nodes s' = nodes s @ new"
      and boxes: "groupBoxes s' = groupBoxes s @ [created s ..< created s + length new]"
      and objs: "map (objects s') [created s ..< created s + length new]
          = map (\<lambda>n. Some (makeGroupBox n)) new"
      and same: "set ns \<subseteq> set (nodes s) \<longrightarrow>
          nodes s' = nodes s \<and> groupBoxes s' = groupBoxes s \<and> objects s' = objects s"
      and again: "addNodes (Some ns) s' = Inr s'"
    by blast
  have new': "new = rev (remdups (rev (filter (\<lambda>n. address n \<notin> address ` set (nodes s)) ns)))"
    using new unfolding filter .
  have set': "set new = {n \<in> set ns. address n \<notin> address ` set (nodes s)}"
    using set known by auto
  have ports: "\<forall>n \<in> set new. port n = p"
    using set assms(2) by auto
  have "inj_on address (set new)"
  proof (rule inj_onI)
    fix m n :: node assume "m \<in> set new" "n \<in> set new" "address m = address n"
    with ports have "port m = port n" by simp
    with \<open>address m = address n\<close> show "m = n" by (cases m, cases n) simp
  qed
  with dist have dist': "distinct (map address new)"
    by (simp add: distinct_map)
  have same': "nodes s' = nodes s \<and> groupBoxes s' = groupBoxes s \<and> objects s' = objects s"
    if "\<forall>n \<in> set ns. address n \<in> address ` set (nodes s)"
    using that same known by auto
  have unique: "distinct (map address (nodes s'))" if "distinct (map address (nodes s))"
  proof -
    have "a \<notin> address ` set (nodes s)" if "a \<in> address ` set new" for a
    proof -
      from that obtain n where "n \<in> set new" "a = address n" by auto
      then show ?thesis unfolding set' by simp
    qed
    then have "address ` set (nodes s) \<inter> address ` set new = {}"
      by blast
    with that dist' show ?thesis
      by (simp add: nodes)
  qed
  have ports': "\<forall>n \<in> set (nodes s'). port n = p"
    using assms(1) ports by (auto simp: nodes)
  from s' new' set' dist' nodes boxes objs same' unique ports' again show ?thesis
    by blast
qed

theorem addNodes_merge_witness:
  "\<exists>s'. addNodes (Some [node_a, node_b, node_a]) init = Inr s' \<and>
     nodes s' = [node_a, node_b] \<and> groupBoxes s' = [0, 1] \<and>
     map (objects s') [0, 1] = [Some (makeGroupBox node_a), Some (makeGroupBox node_b)] \<and>
     addNodes (Some [node_a, node_b, node_a]) s' = Inr s'"
proof -
  have new: "rev (remdups (rev (filter (\<lambda>n. address n \<notin> address ` set (nodes init))
      [node_a, node_b, node_a]))) = [node_a, node_b]"
    by (simp add: init_def node_a_def node_b_def)
  have "\<forall>n \<in> set (nodes init). port n = 5000" "\<forall>n \<in> set [node_a, node_b, node_a]. port n = 5000"
    by (simp_all add: init_def node_a_def node_b_def)
  from addNodes_merge [OF this]
  obtain s' where "addNodes (Some [node_a, node_b, node_a]) init = Inr s'"
    and "nodes s' = nodes init @ [node_a, node_b]"
    and "groupBoxes s' = groupBoxes init @ [created init ..< created init + length [node_a, node_b]]"
    and "map (objects s') [created init ..< created init + length [node_a, node_b]]
      = map (\<lambda>n. Some (makeGroupBox n)) [node_a, node_b]"
    and "addNodes (Some [node_a, node_b, node_a]) s' = Inr s'"
    unfolding new by blast
  then show ?thesis
    by (auto simp: init_def upt_rec)
qed


section \<open>Removing a group box\<close>

lemma remove_node_first:
  "remove_node a ns =
     takeWhile (\<lambda>n. address n \<noteq> a) ns @ tl (dropWhile (\<lambda>n. address n \<noteq> a) ns)"
proof (induction ns)
  case Nil
  show ?case by (simp add: remove_node_def)
next
  case (Cons m ns)
  show ?case
  proof (cases "address m = a")
    case True
    then show ?thesis by (simp add: remove_node_def)
  next
    case False
    show ?thesis
    proof (cases "find (\<lambda>n. address n = a) ns")
      case None
      with False Cons.IH show ?thesis by (simp add: remove_node_def)
    next
      case (Some n)
      then have "address n = a" by (auto simp: find_Some_iff)
      with False have "m \<noteq> n" by auto
      with False Some Cons.IH show ?thesis by (simp add: remove_node_def)
    qed
  qed
qed

lemma mset_address_remove_node:
  "mset (map address (remove_node a ns)) = mset (map address ns) - {#a#}"
  by (induction ns) (auto simp: remove_node_first)

lemma set_remove_node: "set (remove_node a ns) \<subseteq> set ns"
  by (simp add: remove_node_def set_remove1_subset split: option.splits)

lemma window_abc: "window_abc =
  \<lparr>nodes = [node_a, node_b, node_c], groupBoxes = [0, 1, 2],
   objects = [0 \<mapsto> makeGroupBox node_a, 1 \<mapsto> makeGroupBox node_b, 2 \<mapsto> makeGroupBox node_c],
   created = 3, deferred = [], toolbar_disabled = False, window_disabled = False\<rparr>"
  by (simp add: window_abc_def addNodes_def after_def addGroupBox_def init_def
      node_a_def node_b_def node_c_def eval_nat_numeral)

lemma remove_node_absent: "a \<notin> address ` set ns \<Longrightarrow> remove_node a ns = ns"
proof (cases "find (\<lambda>n. address n = a) ns")
  case None
  then show ?thesis by (simp add: remove_node_def)
next
  case (Some n)
  then obtain i where "i < length ns" "address (ns ! i) = a"
    by (auto simp: find_Some_iff)
  then have "a \<in> address ` set ns"
    by (metis imageI nth_mem)
  moreover assume "a \<notin> address ` set ns"
  ultimately show ?thesis by simp
qed

text \<open>
  Claim C5, as stated, fails: removing what is not in the registry is an error.  In the
  window with the boxes 0, 1 and 2, the Remove button of box 1 takes the box and the node
  \<^verbatim>\<open>10.0.0.2\<close> out; run once more before the event loop has deleted the box,
  \<^verbatim>\<open>self.groupBoxes.remove(groupBox)\<close> raises \<^verbatim>\<open>ValueError\<close>, with the box and the
  address absent from the registry.
\<close>

theorem removeGroupBox_absent_counterexample:
  "groupBoxes window_abc = [0, 1, 2] \<and>
   groupBoxes (after (removeGroupBox 1 window_abc)) = [0, 2] \<and>
   nodes (after (removeGroupBox 1 window_abc)) = [node_a, node_c] \<and>
   removeGroupBox 1 (after (removeGroupBox 1 window_abc))
     = Inl (ValueError, after (removeGroupBox 1 window_abc))"
  by (simp add: window_abc removeGroupBox_def after_def remove_node_def makeGroupBox_def
      node_a_def node_b_def node_c_def)

text \<open>
  Claim C5, amended.  \<^verbatim>\<open>removeGroupBox\<close> deletes the node of a group box that is in the
  registry: the box leaves \<^verbatim>\<open>self.groupBoxes\<close>, is scheduled for deletion, and the
  first node with its address leaves \<^verbatim>\<open>self.nodes\<close> (when no node has the address,
  \<^verbatim>\<open>self.nodes\<close> stays as it is); nothing else changes.  Removal is not idempotent:
  removing a box that is not in the registry raises \<^verbatim>\<open>ValueError\<close> (so does a second
  removal of the same box), or \<^verbatim>\<open>RuntimeError\<close> once Qt has deleted the box, and the
  window with its registry stays exactly as it was.
\<close>

theorem removeGroupBox_effect:
  "(box \<in> set (groupBoxes s) \<and> objects s box = Some g \<longrightarrow>
      (\<exists>s'. removeGroupBox box s = Inr s' \<and>
         s' = s\<lparr>groupBoxes := remove1 box (groupBoxes s),
                deferred := deferred s @ [box],
                nodes := takeWhile (\<lambda>n. address n \<noteq> property_address g) (nodes s) @
                         tl (dropWhile (\<lambda>n. address n \<noteq> property_address g) (nodes s))\<rparr> \<and>
         (property_address g \<notin> address ` set (nodes s) \<longrightarrow> nodes s' = nodes s) \<and>
         (distinct (groupBoxes s) \<longrightarrow> removeGroupBox box s' = Inl (ValueError, s')))) \<and>
   (objects s box = Some g \<and> box \<notin> set (groupBoxes s) \<longrightarrow>
      removeGroupBox box s = Inl (ValueError, s)) \<and>
   (objects s box = None \<longrightarrow> removeGroupBox box s = Inl (RuntimeError, s))"
  by (auto simp: removeGroupBox_def remove_node_first [symmetric] remove_node_absent)

theorem removeGroupBox_effect_witness:
  "\<exists>s'. removeGroupBox 1 window_abc = Inr s' \<and>
     groupBoxes s' = [0, 2] \<and> nodes s' = [node_a, node_c] \<and> objects s' = objects window_abc \<and>
     removeGroupBox 1 s' = Inl (ValueError, s') \<and>
     removeGroupBox 1 (event_loop s') = Inl (RuntimeError, event_loop s')"
proof -
  from removeGroupBox_effect [of 1 window_abc "makeGroupBox node_b"]
  obtain s' where s': "removeGroupBox 1 window_abc = Inr s'"
    "groupBoxes s' = [0, 2]" "nodes s' = [node_a, node_c]" "objects s' = objects window_abc"
    "deferred s' = [1]" "removeGroupBox 1 s' = Inl (ValueError, s')"
    by (auto simp: window_abc makeGroupBox_def node_a_def node_b_def node_c_def)
  from s'(5) have "objects (event_loop s') 1 = None"
    by (simp add: event_loop_def)
  with removeGroupBox_effect [of 1 "event_loop s'" "makeGroupBox node_b"]
  have "removeGroupBox 1 (event_loop s') = Inl (RuntimeError, event_loop s')"
    by blast
  with s' show ?thesis by blast
qed


section \<open>The states of the window\<close>

lemma snapshot_map:
  "\<forall>box \<in> set (groupBoxes s). objects s box \<noteq> None \<Longrightarrow>
     snapshot s = map (\<lambda>box. the (objects s box)) (groupBoxes s)"
  by (simp add: snapshot_def map_filter_def comp_def cong: map_cong)

lemma consistentD:
  assumes "consistent s"
  shows "sorted_wrt (<) (groupBoxes s)" and "distinct (groupBoxes s)"
    and "\<And>box. box \<in> set (groupBoxes s) \<Longrightarrow> box < created s"
    and "\<And>box. box \<in> set (groupBoxes s) \<Longrightarrow> \<exists>g. objects s box = Some g"
    and "\<And>box. box \<in> set (groupBoxes s) \<Longrightarrow> box \<notin> set (deferred s)"
    and "mset (map address (nodes s)) =
         mset (map (\<lambda>box. property_address (the (objects s box))) (groupBoxes s))"
    and "\<And>box. box \<in> set (deferred s) \<Longrightarrow> box < created s"
proof -
  from assms show "\<And>box. box \<in> set (deferred s) \<Longrightarrow> box < created s"
    by (simp add: consistent_def)
  from assms show 1: "sorted_wrt (<) (groupBoxes s)" by (simp add: consistent_def)
  then show "distinct (groupBoxes s)" by (simp add: strict_sorted_iff)
  from assms show "\<And>box. box \<in> set (groupBoxes s) \<Longrightarrow> box < created s"
    by (simp add: consistent_def)
  from assms show "\<And>box. box \<in> set (groupBoxes s) \<Longrightarrow> \<exists>g. objects s box = Some g"
    by (auto simp: consistent_def)
  from assms show "\<And>box. box \<in> set (groupBoxes s) \<Longrightarrow> box \<notin> set (deferred s)"
    by (simp add: consistent_def)
  from assms have "\<forall>box \<in> set (groupBoxes s). objects s box \<noteq> None"
    by (simp add: consistent_def)
  from snapshot_map [OF this] assms
  show "mset (map address (nodes s)) =
         mset (map (\<lambda>box. property_address (the (objects s box))) (groupBoxes s))"
    by (simp add: consistent_def comp_def)
qed

lemma consistentI:
  assumes "sorted_wrt (<) (groupBoxes s)"
    and "\<And>box. box \<in> set (groupBoxes s) \<Longrightarrow> box < created s"
    and "\<And>box. box \<in> set (groupBoxes s) \<Longrightarrow> \<exists>g. objects s box = Some g"
    and "\<And>box. box \<in> set (groupBoxes s) \<Longrightarrow> box \<notin> set (deferred s)"
    and "mset (map address (nodes s)) =
         mset (map (\<lambda>box. property_address (the (objects s box))) (groupBoxes s))"
    and "\<And>box. box \<in> set (deferred s) \<Longrightarrow> box < created s"
  shows "consistent s"
proof -
  from assms(3) have "\<forall>box \<in> set (groupBoxes s). objects s box \<noteq> None" by auto
  from snapshot_map [OF this] assms show ?thesis
    by (auto simp: consistent_def comp_def)
qed

lemma consistent_init: "consistent init"
  by (simp add: consistent_def init_def snapshot_def map_filter_def)

text \<open>Changing what a group box shows, or dropping objects that are not in the list,
  keeps the window consistent.\<close>

lemma consistent_same_addresses:
  assumes s: "consistent s"
    and same: "groupBoxes s' = groupBoxes s" "nodes s' = nodes s" "created s' = created s"
    and deferred: "set (deferred s') \<subseteq> set (deferred s)"
    and objects: "\<And>box g. box \<in> set (groupBoxes s) \<Longrightarrow> objects s box = Some g \<Longrightarrow>
        \<exists>g'. objects s' box = Some g' \<and> property_address g' = property_address g"
  shows "consistent s'"
proof (rule consistentI)
  show "sorted_wrt (<) (groupBoxes s')"
    using consistentD(1) [OF s] same by simp
  show "box < created s'" if "box \<in> set (groupBoxes s')" for box
    using consistentD(3) [OF s] that same by simp
  show "\<exists>g. objects s' box = Some g" if "box \<in> set (groupBoxes s')" for box
    using consistentD(4) [OF s, of box] objects [of box] that same by auto
  show "box \<notin> set (deferred s')" if "box \<in> set (groupBoxes s')" for box
    using consistentD(5) [OF s, of box] deferred that same by auto
  have "map (\<lambda>box. property_address (the (objects s' box))) (groupBoxes s)
      = map (\<lambda>box. property_address (the (objects s box))) (groupBoxes s)"
  proof (rule map_cong [OF refl])
    fix box assume box: "box \<in> set (groupBoxes s)"
    with consistentD(4) [OF s] obtain g where "objects s box = Some g" by blast
    with objects [OF box] show "property_address (the (objects s' box))
        = property_address (the (objects s box))" by auto
  qed
  then show "mset (map address (nodes s')) =
         mset (map (\<lambda>box. property_address (the (objects s' box))) (groupBoxes s'))"
    unfolding same by (simp only: consistentD(6) [OF s])
  show "box < created s'" if "box \<in> set (deferred s')" for box
    using consistentD(7) [OF s, of box] deferred that same by auto
qed

lemma consistent_update:
  assumes "consistent s" and "objects s box = Some g"
    and "property_address g' = property_address g"
  shows "consistent (s\<lparr>objects := (objects s)(box \<mapsto> g')\<rparr>)"
  by (rule consistent_same_addresses [OF assms(1)]) (use assms in auto)

lemma consistent_toolbar: "consistent s \<Longrightarrow> consistent (s\<lparr>toolbar_disabled := b\<rparr>)"
  by (erule consistent_same_addresses) auto

lemma consistent_window: "consistent s \<Longrightarrow> consistent (s\<lparr>window_disabled := b\<rparr>)"
  by (erule consistent_same_addresses) auto

lemma consistent_event_loop: "consistent s \<Longrightarrow> consistent (event_loop s)"
proof (rule consistent_same_addresses [of s])
  assume s: "consistent s"
  fix box g assume "box \<in> set (groupBoxes s)" "objects s box = Some g"
  with consistentD(5) [OF s, of box]
  show "\<exists>g'. objects (event_loop s) box = Some g' \<and> property_address g' = property_address g"
    by (simp add: event_loop_def)
qed (simp_all add: event_loop_def)

lemma consistent_addGroupBox:
  assumes s: "consistent s"
  shows "consistent (addGroupBox n (s\<lparr>nodes := nodes s @ [n]\<rparr>))"
proof (rule consistentI)
  let ?s' = "addGroupBox n (s\<lparr>nodes := nodes s @ [n]\<rparr>)"
  have s': "groupBoxes ?s' = groupBoxes s @ [created s]" "created ?s' = Suc (created s)"
    "nodes ?s' = nodes s @ [n]" "deferred ?s' = deferred s"
    "objects ?s' = (objects s)(created s \<mapsto> makeGroupBox n)"
    by (simp_all add: addGroupBox_def Let_def)
  have new: "created s \<notin> set (groupBoxes s)"
    using consistentD(3) [OF s, of "created s"] by auto
  show "sorted_wrt (<) (groupBoxes ?s')"
    using consistentD(1) [OF s] consistentD(3) [OF s] by (simp add: s' sorted_wrt_append)
  show "box < created ?s'" if "box \<in> set (groupBoxes ?s')" for box
    using that consistentD(3) [OF s, of box] by (auto simp: s')
  show "\<exists>g. objects ?s' box = Some g" if "box \<in> set (groupBoxes ?s')" for box
    using that consistentD(4) [OF s, of box] by (auto simp: s')
  show "box \<notin> set (deferred ?s')" if "box \<in> set (groupBoxes ?s')" for box
  proof (cases "box = created s")
    case True
    with consistentD(7) [OF s, of box] show ?thesis by (auto simp: s')
  next
    case False
    with that consistentD(5) [OF s, of box] show ?thesis by (auto simp: s')
  qed
  have eq: "map (\<lambda>box. property_address (the (objects ?s' box))) (groupBoxes s)
      = map (\<lambda>box. property_address (the (objects s box))) (groupBoxes s)"
    using new by (intro map_cong [OF refl]) (auto simp: s')
  have last: "property_address (the (objects ?s' (created s))) = address n"
    by (simp add: s' makeGroupBox_def)
  have "mset (map (\<lambda>box. property_address (the (objects ?s' box))) (groupBoxes ?s'))
      = mset (map (\<lambda>box. property_address (the (objects ?s' box))) (groupBoxes s)
          @ [property_address (the (objects ?s' (created s)))])"
    unfolding s'(1) by simp
  also have "\<dots> = mset (map (\<lambda>box. property_address (the (objects s box))) (groupBoxes s)
          @ [address n])"
    unfolding eq last ..
  also have "\<dots> = mset (map address (nodes s @ [n]))"
    using consistentD(6) [OF s] by simp
  finally show "mset (map address (nodes ?s')) =
         mset (map (\<lambda>box. property_address (the (objects ?s' box))) (groupBoxes ?s'))"
    unfolding s'(3) by (rule sym)
  show "box < created ?s'" if "box \<in> set (deferred ?s')" for box
    using that consistentD(7) [OF s, of box] by (auto simp: s')
qed

lemma consistent_removeGroupBox:
  assumes s: "consistent s" and rm: "removeGroupBox box s = Inr s'"
  shows "consistent s'"
proof -
  from rm obtain g where g: "objects s box = Some g" and box: "box \<in> set (groupBoxes s)"
    and s': "s' = s\<lparr>groupBoxes := remove1 box (groupBoxes s), deferred := deferred s @ [box],
                    nodes := remove_node (property_address g) (nodes s)\<rparr>"
    by (auto simp: removeGroupBox_def split: option.splits if_splits)
  have dist: "distinct (groupBoxes s)"
    by (rule consistentD(2) [OF s])
  have rest: "set (remove1 box (groupBoxes s)) = set (groupBoxes s) - {box}"
    using dist by simp
  show ?thesis
  proof (rule consistentI)
    have "remove1 box (groupBoxes s) = filter ((\<noteq>) box) (groupBoxes s)"
      using dist by (simp add: distinct_remove1_removeAll removeAll_filter_not_eq)
    then show "sorted_wrt (<) (groupBoxes s')"
      using consistentD(1) [OF s] by (simp add: s' sorted_wrt_filter)
    show "b < created s'" if "b \<in> set (groupBoxes s')" for b
      using that consistentD(3) [OF s, of b] by (simp add: s' rest)
    show "\<exists>g. objects s' b = Some g" if "b \<in> set (groupBoxes s')" for b
      using that consistentD(4) [OF s, of b] by (simp add: s' rest)
    show "b \<notin> set (deferred s')" if "b \<in> set (groupBoxes s')" for b
      using that consistentD(5) [OF s, of b] by (simp add: s' rest)
    show "b < created s'" if "b \<in> set (deferred s')" for b
      using that consistentD(7) [OF s, of b] consistentD(3) [OF s box] by (auto simp: s')
    let ?f = "\<lambda>b. property_address (the (objects s b))"
    have "mset (map ?f (remove1 box (groupBoxes s))) = image_mset ?f (mset (groupBoxes s) - {#box#})"
      by simp
    also have "\<dots> = image_mset ?f (mset (groupBoxes s)) - {#?f box#}"
      using box by (simp add: image_mset_Diff)
    also have "\<dots> = mset (map address (nodes s)) - {#property_address g#}"
      using consistentD(6) [OF s] g by simp
    finally show "mset (map address (nodes s')) =
        mset (map (\<lambda>b. property_address (the (objects s' b))) (groupBoxes s'))"
      using mset_address_remove_node [of "property_address g" "nodes s"] by (simp add: s')
  qed
qed

text \<open>Every change keeps the window consistent, and leads to a later window.\<close>

lemma changes_consistent: "changes s s' \<Longrightarrow> consistent s \<Longrightarrow> consistent s'"
proof (induction rule: changes.induct)
  case (box_updated s s' box g g')
  then show ?case by (auto intro: consistent_update)
qed (auto intro: consistent_toolbar consistent_window consistent_addGroupBox
    consistent_removeGroupBox consistent_event_loop)

lemma later_trans: "later s s' \<Longrightarrow> later s' s'' \<Longrightarrow> later s s''"
  by (fastforce simp: later_def)

lemma later_removeGroupBox: "removeGroupBox box s = Inr s' \<Longrightarrow> later s s'"
  by (auto simp: removeGroupBox_def later_def split: option.splits if_splits
      dest: set_remove1_subset [THEN subsetD])

lemma changes_later: "changes s s' \<Longrightarrow> later s s'"
proof (induction rule: changes.induct)
  case (box_added s s' n)
  then show ?case by (auto simp: later_def addGroupBox_def Let_def)
next
  case (box_removed s s' box s'')
  then show ?case by (blast intro: later_trans later_removeGroupBox)
qed (auto simp: later_def event_loop_def)

text \<open>What the methods do is made of these changes, whether they return or raise.\<close>

lemma changes_addNodes_loop: "changes s0 s \<Longrightarrow> changes s0 (addNodes_loop ns s)"
  by (induction ns arbitrary: s) (auto intro: changes.intros)

lemma changes_addNodes: "changes s0 s \<Longrightarrow> changes s0 (after (addNodes arg s))"
  by (auto simp: addNodes_def after_def split: option.splits
      intro: changes.window_set changes_addNodes_loop)

lemma changes_removeGroupBox: "changes s0 s \<Longrightarrow> changes s0 (after (removeGroupBox box s))"
proof (cases "removeGroupBox box s")
  case (Inl r)
  then have "after (removeGroupBox box s) = s"
    by (auto simp: removeGroupBox_def after_def split: option.splits if_splits)
  then show "changes s0 s \<Longrightarrow> ?thesis" by simp
next
  case (Inr s')
  then show "changes s0 s \<Longrightarrow> ?thesis"
    by (auto simp: after_def intro: changes.box_removed)
qed

lemma changes_setDisabled_each:
  "changes s0 s \<Longrightarrow> changes s0 (after (setDisabled_each boxes state s))"
proof (induction boxes arbitrary: s)
  case Nil
  then show ?case by (simp add: after_def)
next
  case (Cons box boxes)
  show ?case
  proof (cases "objects s box")
    case None
    with Cons.prems show ?thesis by (simp add: after_def)
  next
    case (Some g)
    have "changes s0 (s\<lparr>objects := (objects s)(box \<mapsto> g\<lparr>disabled := state\<rparr>)\<rparr>)"
      using Cons.prems Some by (rule changes.box_updated) simp
    from Cons.IH [OF this] Some show ?thesis by simp
  qed
qed

lemma changes_setChecked_each:
  "changes s0 s \<Longrightarrow> changes s0 (after (setChecked_each boxes state s))"
proof (induction boxes arbitrary: s)
  case Nil
  then show ?case by (simp add: after_def)
next
  case (Cons box boxes)
  show ?case
  proof (cases "objects s box")
    case None
    with Cons.prems show ?thesis by (simp add: after_def)
  next
    case (Some g)
    have "changes s0 (s\<lparr>objects := (objects s)(box \<mapsto> g\<lparr>checkbox := state\<rparr>)\<rparr>)"
      using Cons.prems Some by (rule changes.box_updated) simp
    from Cons.IH [OF this] Some show ?thesis by simp
  qed
qed

lemma changes_updateNodeName: "changes s0 s \<Longrightarrow> changes s0 (updateNodeName data s)"
  by (auto simp: updateNodeName_def split: option.splits intro: changes.box_updated)

lemma changes_checkNodeName_each:
  "changes s0 s \<Longrightarrow> changes s0 (after (checkNodeName_each env boxes s))"
proof (induction boxes arbitrary: s)
  case Nil
  then show ?case by (simp add: after_def)
next
  case (Cons box boxes)
  show ?case
  proof (cases "objects s box")
    case None
    with Cons show ?thesis by simp
  next
    case (Some g)
    show ?thesis
    proof (cases "http_get env (node_name_api g)")
      case (Inr name)
      with Some Cons.IH [OF changes_updateNodeName [OF Cons.prems]] show ?thesis by simp
    next
      case (Inl e)
      with Some Cons.IH [OF Cons.prems] Cons.prems show ?thesis
        by (cases e) (simp_all add: after_def)
    qed
  qed
qed

lemma changes_removeGroupBox_each:
  "changes s0 s \<Longrightarrow> changes s0 (after (removeGroupBox_each boxes s))"
proof (induction boxes arbitrary: s)
  case Nil
  then show ?case by (simp add: after_def)
next
  case (Cons box boxes)
  show ?case
  proof (cases "removeGroupBox box s")
    case (Inl r)
    with changes_removeGroupBox [OF Cons.prems, of box] show ?thesis
      by (simp add: after_def)
  next
    case (Inr s')
    with changes_removeGroupBox [OF Cons.prems, of box] have "changes s0 s'"
      by (simp add: after_def)
    from Cons.IH [OF this] Inr show ?thesis by simp
  qed
qed

lemma changes_machineControl_loop:
  "changes s0 s \<Longrightarrow> changes s0 (after (machineControl_loop env command i s))"
proof (induction env command i s rule: machineControl_loop.induct)
  case (1 env command i s)
  show ?case
  proof (cases "i < length (groupBoxes s)")
    case False
    with "1.prems" show ?thesis by (simp add: machineControl_loop.simps after_def)
  next
    case True
    let ?box = "groupBoxes s ! i"
    show ?thesis
    proof (cases "objects s ?box")
      case None
      with True "1.prems" show ?thesis
        by (subst machineControl_loop.simps) (simp add: after_def)
    next
      case g: (Some g)
      show ?thesis
      proof (cases "checkbox g")
        case False
        from "1.IH"(3) [OF True refl g False "1.prems"] True g False show ?thesis
          by (subst machineControl_loop.simps) (simp add: Let_def)
      next
        case checked: True
        let ?s1 = "s\<lparr>objects := (objects s)(?box \<mapsto> g\<lparr>disabled := True\<rparr>)\<rparr>"
        have s1: "changes s0 ?s1"
          using "1.prems" g by (rule changes.box_updated) simp
        show ?thesis
        proof (cases "http_post env (machine_control_api g) command")
          case None
          show ?thesis
          proof (cases "removeGroupBox ?box ?s1")
            case (Inl r)
            with changes_removeGroupBox [OF s1, of ?box] True g checked None show ?thesis
              by (subst machineControl_loop.simps) (simp add: Let_def after_def)
          next
            case (Inr s2)
            with changes_removeGroupBox [OF s1, of ?box] have "changes s0 s2"
              by (simp add: after_def)
            from "1.IH"(1) [OF True refl g checked refl None Inr this] True g checked None Inr
            show ?thesis
              by (subst machineControl_loop.simps) (simp add: Let_def)
          qed
        next
          case (Some e)
          show ?thesis
          proof (cases "\<exists>k. e = RequestException k")
            case True
            then obtain k where e: "e = RequestException k" ..
            from "1.IH"(2) [OF \<open>i < length (groupBoxes s)\<close> refl g checked refl Some e s1]
              \<open>i < length (groupBoxes s)\<close> g checked Some e
            show ?thesis
              by (subst machineControl_loop.simps) (simp add: Let_def)
          next
            case False
            with \<open>i < length (groupBoxes s)\<close> g checked Some s1 show ?thesis
              by (subst machineControl_loop.simps) (cases e; simp add: Let_def after_def)
          qed
        qed
      qed
    qed
  qed
qed

lemma after_Inl [simp]: "after (Inl (e, s)) = s"
  by (simp add: after_def)

lemma after_Inr [simp]: "after (Inr s) = s"
  by (simp add: after_def)

lemma changes_machineControl:
  assumes "changes s0 s"
  shows "changes s0 (after (machineControl env command s))"
proof (cases "length (groupBoxes s) = 0")
  case True
  with assms show ?thesis by (simp add: machineControl_def)
next
  case False
  let ?r1 = "setDisabled_each (groupBoxes s) True (s\<lparr>toolbar_disabled := True\<rparr>)"
  have 1: "changes s0 (after ?r1)"
    by (intro changes_setDisabled_each changes.toolbar_set assms)
  show ?thesis
  proof (cases ?r1)
    case (Inl r)
    with 1 False show ?thesis
      by (cases r) (simp add: machineControl_def disableGroupBoxes_def)
  next
    case s1: (Inr s1)
    with 1 have "changes s0 s1" by simp
    then have 2: "changes s0 (after (machineControl_loop env command 0 s1))"
      by (rule changes_machineControl_loop)
    show ?thesis
    proof (cases "machineControl_loop env command 0 s1")
      case (Inl r)
      with 2 s1 False show ?thesis
        by (cases r) (simp add: machineControl_def disableGroupBoxes_def)
    next
      case s2: (Inr s2)
      with 2 have "changes s0 s2" by simp
      then have 3: "changes s0 (after (setDisabled_each (groupBoxes s2) False s2))"
        by (rule changes_setDisabled_each)
      show ?thesis
      proof (cases "setDisabled_each (groupBoxes s2) False s2")
        case (Inl r)
        with 3 s1 s2 False show ?thesis
          by (cases r) (simp add: machineControl_def disableGroupBoxes_def)
      next
        case (Inr s3)
        with 3 s1 s2 False show ?thesis
          by (simp add: machineControl_def disableGroupBoxes_def changes.toolbar_set)
      qed
    qed
  qed
qed

lemma changes_clearList:
  assumes "changes s0 s"
  shows "changes s0 (after (clearList s))"
proof -
  let ?r = "removeGroupBox_each (groupBoxes s) (s\<lparr>toolbar_disabled := True\<rparr>)"
  have 1: "changes s0 (after ?r)"
    by (intro changes_removeGroupBox_each changes.toolbar_set assms)
  show ?thesis
  proof (cases ?r)
    case (Inl r)
    with 1 show ?thesis by (cases r) (simp add: clearList_def)
  next
    case (Inr s1)
    with 1 show ?thesis by (simp add: clearList_def changes.toolbar_set)
  qed
qed

lemma changes_perform: "changes s0 s \<Longrightarrow> changes s0 (after (perform x s))"
  by (cases x)
    (simp_all add: changes_addNodes changes_removeGroupBox toggleSelection_def
      changes_setChecked_each changes_clearList changes_machineControl
      checkNodeName_pass_def changes_checkNodeName_each)

lemma changes_run: "changes s0 s \<Longrightarrow> changes s0 (run xs s)"
  by (induction xs arbitrary: s) (auto intro: changes_perform changes.objects_deleted)

lemma run_append: "run (xs @ ys) s = run ys (run xs s)"
  by (induction xs arbitrary: s) simp_all

text \<open>Every window the program reaches is consistent.\<close>

lemma consistent_run: "consistent (run xs init)"
  using changes_run [OF changes.unchanged, of init xs] consistent_init
  by (rule changes_consistent)

lemma later_run: "later s (run xs s)"
  using changes_run [OF changes.unchanged, of s xs] by (rule changes_later)


section \<open>The order of the registry\<close>

lemma sorted_split:
  fixes xs :: "nat list"
  shows "sorted_wrt (<) xs \<Longrightarrow> xs = filter (\<lambda>x. x < c) xs @ filter (\<lambda>x. \<not> x < c) xs"
proof (induction xs)
  case Nil
  show ?case by simp
next
  case (Cons a as)
  show ?case
  proof (cases "a < c")
    case True
    with Cons show ?thesis by simp
  next
    case False
    with Cons.prems have "\<forall>y \<in> set as. \<not> y < c" by auto
    then have "filter (\<lambda>x. x < c) as = []" "filter (\<lambda>x. \<not> x < c) as = as"
      by (simp_all add: filter_empty_conv filter_id_conv)
    with False show ?thesis by simp
  qed
qed

lemma survivors_then_newcomers:
  assumes s: "consistent s" and s': "consistent s'" and later: "later s s'"
  shows "groupBoxes s' =
     filter (\<lambda>box. box \<in> set (groupBoxes s')) (groupBoxes s) @
     filter (\<lambda>box. box \<notin> set (groupBoxes s)) (groupBoxes s')"
proof -
  let ?old = "filter (\<lambda>box. box < created s) (groupBoxes s')"
  let ?new = "filter (\<lambda>box. \<not> box < created s) (groupBoxes s')"
  have in_s: "box \<in> set (groupBoxes s) \<longleftrightarrow> box < created s" if "box \<in> set (groupBoxes s')" for box
    using that later consistentD(3) [OF s, of box] by (auto simp: later_def)
  have split: "groupBoxes s' = ?old @ ?new"
    by (rule sorted_split [OF consistentD(1) [OF s']])
  have 1: "sorted_wrt (<) ?old"
    using consistentD(1) [OF s'] by (rule sorted_wrt_filter)
  have 2: "sorted_wrt (<) (filter (\<lambda>box. box \<in> set (groupBoxes s')) (groupBoxes s))"
    using consistentD(1) [OF s] by (rule sorted_wrt_filter)
  have 3: "set ?old = set (filter (\<lambda>box. box \<in> set (groupBoxes s')) (groupBoxes s))"
    using in_s consistentD(3) [OF s] by auto
  from 1 2 3 have old: "?old = filter (\<lambda>box. box \<in> set (groupBoxes s')) (groupBoxes s)"
    by (intro sorted_distinct_set_unique) (simp_all add: strict_sorted_iff)
  have new: "?new = filter (\<lambda>box. box \<notin> set (groupBoxes s)) (groupBoxes s')"
    by (rule filter_cong [OF refl]) (simp add: in_s)
  from split show ?thesis
    unfolding old new .
qed

lemma map_filter_cong:
  "(\<And>x. x \<in> set xs \<Longrightarrow> f x = g x) \<Longrightarrow> List.map_filter f xs = List.map_filter g xs"
  by (induction xs) (auto simp: map_filter_simps split: option.splits)

lemma map_filter_Some: "map f xs = map Some ys \<Longrightarrow> List.map_filter f xs = ys"
proof (induction xs arbitrary: ys)
  case Nil
  then show ?case by (simp add: map_filter_simps)
next
  case (Cons x xs)
  then show ?case by (cases ys) (auto simp: map_filter_simps)
qed

lemma map_filter_append: "List.map_filter f (xs @ ys) = List.map_filter f xs @ List.map_filter f ys"
  by (simp add: map_filter_def)

lemma snapshot_event_loop:
  assumes "consistent s"
  shows "snapshot (event_loop s) = snapshot s"
  unfolding snapshot_def
proof -
  have "List.map_filter (objects (event_loop s)) (groupBoxes s) = List.map_filter (objects s) (groupBoxes s)"
    using consistentD(5) [OF assms] by (intro map_filter_cong) (simp add: event_loop_def)
  then show "List.map_filter (objects (event_loop s)) (groupBoxes (event_loop s))
      = List.map_filter (objects s) (groupBoxes s)"
    by (simp add: event_loop_def)
qed

lemma snapshot_addNodes:
  assumes "consistent s"
  shows "snapshot (after (addNodes (Some ns) s)) = snapshot s @ map makeGroupBox (fresh ns (nodes s))"
proof -
  let ?s1 = "addNodes_loop ns s"
  let ?new = "[created s ..< created s + length (fresh ns (nodes s))]"
  have old: "List.map_filter (objects ?s1) (groupBoxes s) = List.map_filter (objects s) (groupBoxes s)"
  proof (rule map_filter_cong)
    fix box assume "box \<in> set (groupBoxes s)"
    then have "box < created s" by (rule consistentD(3) [OF assms])
    then show "objects ?s1 box = objects s box" by (simp add: objects_addNodes_loop)
  qed
  have "map (objects ?s1) ?new = map Some (map makeGroupBox (fresh ns (nodes s)))"
    using new_objects_addNodes_loop [of ns s] by (simp add: comp_def)
  then have new: "List.map_filter (objects ?s1) ?new = map makeGroupBox (fresh ns (nodes s))"
    by (rule map_filter_Some)
  have "snapshot (after (addNodes (Some ns) s)) = List.map_filter (objects ?s1) (groupBoxes s @ ?new)"
    by (simp add: addNodes_def snapshot_def groupBoxes_addNodes_loop)
  then show ?thesis
    by (simp only: map_filter_append old new snapshot_def)
qed

lemma groupBoxes_removeGroupBox:
  assumes "consistent s"
  shows "groupBoxes (after (removeGroupBox box s)) = remove1 box (groupBoxes s)"
    and "objects (after (removeGroupBox box s)) = objects s"
proof -
  have "box \<notin> set (groupBoxes s)" if "objects s box = None"
    using consistentD(4) [OF assms, of box] that by auto
  then show "groupBoxes (after (removeGroupBox box s)) = remove1 box (groupBoxes s)"
    by (auto simp: removeGroupBox_def remove1_idem split: option.splits)
  show "objects (after (removeGroupBox box s)) = objects s"
    by (simp add: removeGroupBox_def split: option.splits)
qed

lemma snapshot_removeGroupBox:
  assumes "consistent s"
  shows "snapshot (after (removeGroupBox box s)) = List.map_filter (objects s) (remove1 box (groupBoxes s))"
  by (simp add: snapshot_def groupBoxes_removeGroupBox [OF assms])

text \<open>
  Claim C3.  Group boxes are numbered in the order of their creation.  After every sequence
  of operations on the window (merges, removals, and the other actions of the tool bar):
  the list of the registry is in the order of creation and the snapshot lists its boxes in
  that order; after any further operations, the list is what is left of the earlier list,
  in the earlier order, followed by the boxes created since; a merge appends to the
  snapshot the boxes of the incoming nodes that were not registered, in the order of their
  first occurrence in the incoming list; a removal takes the box out and leaves the others
  in place.
\<close>

theorem registry_insertion_order:
  "sorted_wrt (<) (groupBoxes (run xs init)) \<and>
   snapshot (run xs init) = map (\<lambda>box. the (objects (run xs init) box)) (groupBoxes (run xs init)) \<and>
   groupBoxes (run (xs @ ys) init) =
     filter (\<lambda>box. box \<in> set (groupBoxes (run (xs @ ys) init))) (groupBoxes (run xs init)) @
     filter (\<lambda>box. box \<notin> set (groupBoxes (run xs init))) (groupBoxes (run (xs @ ys) init)) \<and>
   snapshot (run (xs @ [Merge ns]) init) =
     snapshot (run xs init) @
     map makeGroupBox (rev (remdups (rev (filter (\<lambda>n. n \<notin> set (nodes (run xs init))) ns)))) \<and>
   groupBoxes (run (xs @ [Remove box]) init) = remove1 box (groupBoxes (run xs init)) \<and>
   snapshot (run (xs @ [Remove box]) init) =
     map (\<lambda>box. the (objects (run xs init) box)) (remove1 box (groupBoxes (run xs init)))"
proof -
  let ?s = "run xs init"
  have s: "consistent ?s" by (rule consistent_run)
  have s': "consistent (run (xs @ ys) init)" by (rule consistent_run)
  have "later ?s (run (xs @ ys) init)"
    unfolding run_append by (rule later_run)
  with s s' have order: "groupBoxes (run (xs @ ys) init) =
     filter (\<lambda>box. box \<in> set (groupBoxes (run (xs @ ys) init))) (groupBoxes ?s) @
     filter (\<lambda>box. box \<notin> set (groupBoxes ?s)) (groupBoxes (run (xs @ ys) init))"
    by (rule survivors_then_newcomers)
  have snap: "snapshot ?s = map (\<lambda>box. the (objects ?s box)) (groupBoxes ?s)"
    using consistentD(4) [OF s] by (intro snapshot_map) auto
  have "consistent (after (addNodes (Some ns) ?s))"
    using changes_addNodes [OF changes.unchanged] s by (rule changes_consistent)
  then have merge: "snapshot (run (xs @ [Merge ns]) init) =
     snapshot ?s @ map makeGroupBox (rev (remdups (rev (filter (\<lambda>n. n \<notin> set (nodes ?s)) ns))))"
    using snapshot_addNodes [OF s, of ns]
    by (simp add: run_append snapshot_event_loop fresh_first_occurrences)
  have rm: "consistent (after (removeGroupBox box ?s))"
    using changes_removeGroupBox [OF changes.unchanged] s by (rule changes_consistent)
  have boxes: "groupBoxes (run (xs @ [Remove box]) init) = remove1 box (groupBoxes ?s)"
    by (simp add: run_append event_loop_def groupBoxes_removeGroupBox [OF s])
  have "List.map_filter (objects ?s) (remove1 box (groupBoxes ?s))
      = map (\<lambda>box. the (objects ?s box)) (remove1 box (groupBoxes ?s))"
  proof -
    have "map (objects ?s) (remove1 box (groupBoxes ?s))
        = map Some (map (\<lambda>box. the (objects ?s box)) (remove1 box (groupBoxes ?s)))"
      using consistentD(4) [OF s] set_remove1_subset [of box "groupBoxes ?s"] by auto
    then show ?thesis by (rule map_filter_Some)
  qed
  with rm have removal: "snapshot (run (xs @ [Remove box]) init) =
     map (\<lambda>box. the (objects ?s box)) (remove1 box (groupBoxes ?s))"
    by (simp add: run_append snapshot_event_loop snapshot_removeGroupBox [OF s])
  from consistentD(1) [OF s] snap order merge boxes removal show ?thesis
    by (intro conjI)
qed

theorem registry_insertion_order_witness:
  "map property_address (snapshot (run [Merge [node_a, node_b, node_c]] init))
     = [''10.0.0.5'', ''10.0.0.2'', ''10.0.0.9''] \<and>
   map property_address (snapshot (run [Merge [node_a, node_b], Merge [node_c, node_a]] init))
     = [''10.0.0.5'', ''10.0.0.2'', ''10.0.0.9''] \<and>
   map property_address (snapshot (run [Merge [node_a, node_b, node_c], Remove 0] init))
     = [''10.0.0.2'', ''10.0.0.9''] \<and>
   map property_address (snapshot (run [Merge [node_a, node_b, node_c], Remove 0, Merge [node_c, node_a]] init))
     = [''10.0.0.2'', ''10.0.0.9'', ''10.0.0.5'']"
proof -
  have 1: "run [Merge [node_a, node_b, node_c]] init = window_abc"
    by (simp add: window_abc addNodes_def addGroupBox_def init_def event_loop_def
      node_a_def node_b_def node_c_def eval_nat_numeral fun_upd_def)
  have 2: "run [Merge [node_a, node_b], Merge [node_c, node_a]] init = window_abc"
    by (simp add: window_abc addNodes_def addGroupBox_def init_def event_loop_def
      node_a_def node_b_def node_c_def eval_nat_numeral fun_upd_def)
  have 3: "map property_address (snapshot window_abc) = [''10.0.0.5'', ''10.0.0.2'', ''10.0.0.9'']"
    by (simp add: window_abc snapshot_def map_filter_def makeGroupBox_def
        node_a_def node_b_def node_c_def)
  have 4: "run [Merge [node_a, node_b, node_c], Remove 0] init = run [Remove 0] window_abc"
    using 1 run_append [of "[Merge [node_a, node_b, node_c]]" "[Remove 0]" init] by simp
  have 5: "map property_address (snapshot (run [Remove 0] window_abc)) = [''10.0.0.2'', ''10.0.0.9'']"
    by (simp add: window_abc event_loop_def removeGroupBox_def
      remove_node_def snapshot_def map_filter_def makeGroupBox_def
      node_a_def node_b_def node_c_def eval_nat_numeral)
  have 6: "nodes (run [Remove 0] window_abc) = [node_b, node_c]"
    by (simp add: window_abc event_loop_def removeGroupBox_def
      remove_node_def makeGroupBox_def node_a_def node_b_def node_c_def eval_nat_numeral)
  have 7: "rev (remdups (rev (filter (\<lambda>n. n \<notin> set [node_b, node_c]) [node_c, node_a]))) = [node_a]"
    by (simp add: node_a_def node_b_def node_c_def)
  from registry_insertion_order [of "[Merge [node_a, node_b, node_c], Remove 0]" "[]" "[node_c, node_a]" 0]
  have "snapshot (run [Merge [node_a, node_b, node_c], Remove 0, Merge [node_c, node_a]] init)
      = snapshot (run [Remove 0] window_abc) @ map makeGroupBox [node_a]"
    unfolding 4 6 7 by simp
  with 1 2 3 4 5 show ?thesis
    by (simp add: makeGroupBox_def node_a_def)
qed


section \<open>Clearing the list\<close>

lemma removeGroupBox_each_all:
  "consistent s \<Longrightarrow> distinct boxes \<Longrightarrow> set boxes \<subseteq> set (groupBoxes s) \<Longrightarrow>
     \<exists>s'. removeGroupBox_each boxes s = Inr s' \<and> consistent s' \<and>
          set (groupBoxes s') = set (groupBoxes s) - set boxes"
proof (induction boxes arbitrary: s)
  case Nil
  then show ?case by simp
next
  case (Cons box boxes)
  from Cons.prems have box: "box \<in> set (groupBoxes s)" by simp
  with consistentD(4) [OF Cons.prems(1)] obtain g where g: "objects s box = Some g" by blast
  with box obtain s1 where s1: "removeGroupBox box s = Inr s1"
    and gs1: "groupBoxes s1 = remove1 box (groupBoxes s)"
    by (simp add: removeGroupBox_def)
  have set1: "set (groupBoxes s1) = set (groupBoxes s) - {box}"
    using consistentD(2) [OF Cons.prems(1)] by (simp add: gs1)
  have "consistent s1"
    using Cons.prems(1) s1 by (rule consistent_removeGroupBox)
  moreover have "distinct boxes" "set boxes \<subseteq> set (groupBoxes s1)"
    using Cons.prems(2,3) by (auto simp: set1)
  ultimately obtain s' where "removeGroupBox_each boxes s1 = Inr s'" "consistent s'"
    "set (groupBoxes s') = set (groupBoxes s1) - set boxes"
    using Cons.IH by blast
  with s1 set1 show ?case by auto
qed

lemma clearList_consistent:
  assumes "consistent s"
  shows "\<exists>s'. clearList s = Inr s' \<and> groupBoxes s' = [] \<and> nodes s' = [] \<and> snapshot s' = []"
proof -
  have "consistent (s\<lparr>toolbar_disabled := True\<rparr>)"
    using assms by (rule consistent_toolbar)
  from removeGroupBox_each_all [OF this, of "groupBoxes s"] consistentD(2) [OF assms]
  obtain s1 where s1: "removeGroupBox_each (groupBoxes s) (s\<lparr>toolbar_disabled := True\<rparr>) = Inr s1"
    "consistent s1" "groupBoxes s1 = []"
    by auto
  from consistentD(6) [OF s1(2)] s1(3) have "nodes s1 = []" by simp
  with s1 show ?thesis
    by (simp add: clearList_def snapshot_def map_filter_def)
qed

text \<open>
  Claim C10.  In every window the program reaches (after any sequence of merges, removals,
  selections, dispatches, name checks and clears, from the window at start-up),
  \<^verbatim>\<open>clearList\<close> returns and leaves the registry empty: no group box in the list, no
  node, nothing in the snapshot.  Whether a box is selected plays no part.
\<close>

theorem clearList_empties:
  "\<exists>s'. clearList (run xs init) = Inr s' \<and> groupBoxes s' = [] \<and> nodes s' = [] \<and> snapshot s' = []"
  using consistent_run by (rule clearList_consistent)

theorem clearList_empties_witness:
  "nodes (run [Merge [node_a, node_b], Toggle True, Merge [node_c]] init) = [node_a, node_b, node_c] \<and>
   map checkbox (snapshot (run [Merge [node_a, node_b], Toggle True, Merge [node_c]] init))
     = [True, True, False] \<and>
   (\<exists>s'. clearList (run [Merge [node_a, node_b], Toggle True, Merge [node_c]] init) = Inr s' \<and>
      groupBoxes s' = [] \<and> nodes s' = [] \<and> snapshot s' = [])"
proof -
  have "nodes (run [Merge [node_a, node_b], Toggle True, Merge [node_c]] init) = [node_a, node_b, node_c]"
    "map checkbox (snapshot (run [Merge [node_a, node_b], Toggle True, Merge [node_c]] init))
     = [True, True, False]"
    by (simp_all add: addNodes_def addGroupBox_def init_def event_loop_def toggleSelection_def
      snapshot_def map_filter_def makeGroupBox_def
      node_a_def node_b_def node_c_def eval_nat_numeral)
  with clearList_empties [of "[Merge [node_a, node_b], Toggle True, Merge [node_c]]"]
  show ?thesis by simp
qed


section \<open>The name check\<close>

lemma node_name_api_nameLabel [simp]: "node_name_api (g\<lparr>nameLabel := name\<rparr>) = node_name_api g"
  by (simp add: node_name_api_def)

lemma checkNodeName_each_refreshes:
  assumes "\<forall>box \<in> set boxes. \<forall>g e. objects s box = Some g \<longrightarrow>
      http_get env (node_name_api g) = Inl e \<longrightarrow> (\<exists>k. e = RequestException k)"
  shows "\<exists>s'. checkNodeName_each env boxes s = Inr s' \<and> s' = s\<lparr>objects := objects s'\<rparr> \<and>
     (\<forall>box. objects s' box =
        (case objects s box of
           None \<Rightarrow> None
         | Some g \<Rightarrow>
             if box \<in> set boxes then
               (case http_get env (node_name_api g) of
                  Inr name \<Rightarrow> Some (g\<lparr>nameLabel := name\<rparr>)
                | Inl e \<Rightarrow> Some g)
             else Some g))"
  using assms
proof (induction boxes arbitrary: s)
  case Nil
  show ?case by (simp split: option.splits)
next
  case (Cons b bs)
  show ?case
  proof (cases "objects s b")
    case None
    have "\<forall>box \<in> set bs. \<forall>g e. objects s box = Some g \<longrightarrow>
      http_get env (node_name_api g) = Inl e \<longrightarrow> (\<exists>k. e = RequestException k)"
      using Cons.prems by simp
    from Cons.IH [OF this] obtain s' where s': "checkNodeName_each env bs s = Inr s'"
      "s' = s\<lparr>objects := objects s'\<rparr>"
      "\<And>box. objects s' box =
        (case objects s box of
           None \<Rightarrow> None
         | Some g \<Rightarrow>
             if box \<in> set bs then
               (case http_get env (node_name_api g) of
                  Inr name \<Rightarrow> Some (g\<lparr>nameLabel := name\<rparr>)
                | Inl e \<Rightarrow> Some g)
             else Some g)"
      by blast
    have "objects s' box =
        (case objects s box of
           None \<Rightarrow> None
         | Some g \<Rightarrow>
             if box \<in> set (b # bs) then
               (case http_get env (node_name_api g) of
                  Inr name \<Rightarrow> Some (g\<lparr>nameLabel := name\<rparr>)
                | Inl e \<Rightarrow> Some g)
             else Some g)" for box
      using s'(3) [of box] None by (cases "box = b") (simp_all split: option.splits)
    with s'(1,2) None show ?thesis by simp
  next
    case (Some g)
    show ?thesis
    proof (cases "http_get env (node_name_api g)")
      case (Inl e)
      with Cons.prems Some obtain k where e: "e = RequestException k" by auto
      have "\<forall>box \<in> set bs. \<forall>g e. objects s box = Some g \<longrightarrow>
      http_get env (node_name_api g) = Inl e \<longrightarrow> (\<exists>k. e = RequestException k)"
        using Cons.prems by simp
      from Cons.IH [OF this] obtain s' where s': "checkNodeName_each env bs s = Inr s'"
        "s' = s\<lparr>objects := objects s'\<rparr>"
        "\<And>box. objects s' box =
          (case objects s box of
             None \<Rightarrow> None
           | Some g \<Rightarrow>
               if box \<in> set bs then
                 (case http_get env (node_name_api g) of
                    Inr name \<Rightarrow> Some (g\<lparr>nameLabel := name\<rparr>)
                  | Inl e \<Rightarrow> Some g)
               else Some g)"
        by blast
      have "objects s' box =
          (case objects s box of
             None \<Rightarrow> None
           | Some g \<Rightarrow>
               if box \<in> set (b # bs) then
                 (case http_get env (node_name_api g) of
                    Inr name \<Rightarrow> Some (g\<lparr>nameLabel := name\<rparr>)
                  | Inl e \<Rightarrow> Some g)
               else Some g)" for box
        using s'(3) [of box] Some Inl by (cases "box = b") (simp_all split: option.splits)
      with s'(1,2) Some Inl e show ?thesis by simp
    next
      case (Inr name)
      let ?g1 = "g\<lparr>nameLabel := name\<rparr>"
      let ?s1 = "s\<lparr>objects := (objects s)(b \<mapsto> ?g1)\<rparr>"
      have s1: "updateNodeName (b, name) s = ?s1"
        using Some by (simp add: updateNodeName_def)
      have "\<forall>box \<in> set bs. \<forall>g e. objects ?s1 box = Some g \<longrightarrow>
      http_get env (node_name_api g) = Inl e \<longrightarrow> (\<exists>k. e = RequestException k)"
      proof (intro ballI allI impI)
        fix box g' e
        assume *: "box \<in> set bs" "objects ?s1 box = Some g'" "http_get env (node_name_api g') = Inl e"
        show "\<exists>k. e = RequestException k"
        proof (cases "box = b")
          case True
          with * Inr show ?thesis by auto
        next
          case False
          with * Cons.prems show ?thesis by simp
        qed
      qed
      from Cons.IH [OF this] obtain s' where s': "checkNodeName_each env bs ?s1 = Inr s'"
        "s' = ?s1\<lparr>objects := objects s'\<rparr>"
        "\<And>box. objects s' box =
          (case objects ?s1 box of
             None \<Rightarrow> None
           | Some g \<Rightarrow>
               if box \<in> set bs then
                 (case http_get env (node_name_api g) of
                    Inr name \<Rightarrow> Some (g\<lparr>nameLabel := name\<rparr>)
                  | Inl e \<Rightarrow> Some g)
               else Some g)"
        by blast
      have "objects s' box =
          (case objects s box of
             None \<Rightarrow> None
           | Some g \<Rightarrow>
               if box \<in> set (b # bs) then
                 (case http_get env (node_name_api g) of
                    Inr name \<Rightarrow> Some (g\<lparr>nameLabel := name\<rparr>)
                  | Inl e \<Rightarrow> Some g)
               else Some g)" for box
        using s'(3) [of box] Some Inr by (cases "box = b") (simp_all split: option.splits)
      moreover from s'(2) have "s' = s\<lparr>objects := objects s'\<rparr>"
        by simp
      ultimately show ?thesis
        using s'(1) Some Inr s1 by simp
    qed
  qed
qed

text \<open>A failure that is no \<^verbatim>\<open>RequestException\<close> is not caught: it ends the pass (and
  the thread of the name check).\<close>

lemma checkNodeName_each_raises:
  assumes "objects s box = Some g" and "http_get env (node_name_api g) = Inl e"
    and "\<And>k. e \<noteq> RequestException k"
  shows "checkNodeName_each env (box # boxes) s = Inl (e, s)"
  using assms by (cases e) auto

text \<open>
  Claim C8.  One pass of the name check over the group boxes of the registry, where every
  request that fails, fails with a network error or a timeout (a
  \<^verbatim>\<open>RequestException\<close>): the pass returns; the label of every box of the list whose
  request returned shows the returned name; the label of every box whose request failed
  is as it was, and the pass went on with the boxes after it; nothing else of the window
  changes.
\<close>

theorem checkNodeName_pass_refreshes:
  assumes "\<forall>box \<in> set (groupBoxes s). \<forall>g e. objects s box = Some g \<longrightarrow>
      http_get env (node_name_api g) = Inl e \<longrightarrow> (\<exists>k. e = RequestException k)"
  shows "\<exists>s'. checkNodeName_pass env s = Inr s' \<and> s' = s\<lparr>objects := objects s'\<rparr> \<and>
     (\<forall>box. objects s' box =
        (case objects s box of
           None \<Rightarrow> None
         | Some g \<Rightarrow>
             if box \<in> set (groupBoxes s) then
               (case http_get env (node_name_api g) of
                  Inr name \<Rightarrow> Some (g\<lparr>nameLabel := name\<rparr>)
                | Inl e \<Rightarrow> Some g)
             else Some g))"
  unfolding checkNodeName_pass_def using assms by (rule checkNodeName_each_refreshes)

theorem checkNodeName_pass_refreshes_witness:
  "\<exists>s'. checkNodeName_pass only_a_answers (after (addNodes (Some [node_a, node_b]) init)) = Inr s' \<and>
     map property_address (snapshot s') = [''10.0.0.5'', ''10.0.0.2''] \<and>
     map nameLabel (snapshot (after (addNodes (Some [node_a, node_b]) init)))
       = [[CHR 0xE2, CHR 0x80, CHR 0x94], [CHR 0xE2, CHR 0x80, CHR 0x94]] \<and>
     map nameLabel (snapshot s') = [''server-1'', [CHR 0xE2, CHR 0x80, CHR 0x94]]"
proof -
  let ?w = "after (addNodes (Some [node_a, node_b]) init)"
  have w: "?w = \<lparr>nodes = [node_a, node_b], groupBoxes = [0, 1],
      objects = [0 \<mapsto> makeGroupBox node_a, 1 \<mapsto> makeGroupBox node_b],
      created = 2, deferred = [], toolbar_disabled = False, window_disabled = False\<rparr>"
    by (simp add: addNodes_def addGroupBox_def init_def node_a_def node_b_def eval_nat_numeral)
  have "str_int 5000 = ''5000''"
    by (simp add: str_int_def str_nat.simps digit_def)
  then have api: "node_name_api (makeGroupBox node_a) = ''http://10.0.0.5:5000/node-details/name''"
    "node_name_api (makeGroupBox node_b) = ''http://10.0.0.2:5000/node-details/name''"
    by (simp_all add: node_name_api_def makeGroupBox_def node_a_def node_b_def)
  have "\<forall>box \<in> set (groupBoxes ?w). \<forall>g e. objects ?w box = Some g \<longrightarrow>
      http_get only_a_answers (node_name_api g) = Inl e \<longrightarrow> (\<exists>k. e = RequestException k)"
    by (auto simp: only_a_answers_def split: if_splits)
  from checkNodeName_pass_refreshes [OF this] obtain s'
    where s': "checkNodeName_pass only_a_answers ?w = Inr s'" "s' = ?w\<lparr>objects := objects s'\<rparr>"
      and objs: "\<And>box. objects s' box =
        (case objects ?w box of
           None \<Rightarrow> None
         | Some g \<Rightarrow>
             if box \<in> set (groupBoxes ?w) then
               (case http_get only_a_answers (node_name_api g) of
                  Inr name \<Rightarrow> Some (g\<lparr>nameLabel := name\<rparr>)
                | Inl e \<Rightarrow> Some g)
             else Some g)"
    by blast
  from arg_cong [OF s'(2), of groupBoxes] have boxes: "groupBoxes s' = [0, 1]"
    by (simp add: w)
  have 0: "objects s' 0 = Some ((makeGroupBox node_a)\<lparr>nameLabel := ''server-1''\<rparr>)"
    unfolding objs [of 0] by (simp add: w api only_a_answers_def)
  have 1: "objects s' 1 = Some (makeGroupBox node_b)"
    unfolding objs [of 1] by (simp add: w api only_a_answers_def)
  have "snapshot s' = [(makeGroupBox node_a)\<lparr>nameLabel := ''server-1''\<rparr>, makeGroupBox node_b]"
    using 0 1 by (simp add: snapshot_def boxes map_filter_simps)
  moreover have "snapshot ?w = [makeGroupBox node_a, makeGroupBox node_b]"
    by (simp add: snapshot_def w map_filter_simps)
  ultimately show ?thesis
    using s'(1) by (simp add: makeGroupBox_def node_a_def node_b_def)
qed


section \<open>Dispatching a command\<close>

lemma str_int_5000: "str_int 5000 = ''5000''"
  by (simp add: str_int_def str_nat.simps digit_def)

lemma machine_control_api_nodes:
  "machine_control_api (makeGroupBox node_a) = ''http://10.0.0.5:5000/machine-control''"
  "machine_control_api (makeGroupBox node_b) = ''http://10.0.0.2:5000/machine-control''"
  "machine_control_api (makeGroupBox node_c) = ''http://10.0.0.9:5000/machine-control''"
  by (simp_all add: machine_control_api_def makeGroupBox_def node_a_def node_b_def node_c_def
      str_int_5000)

lemma window_ab_selected:
  "window_ab_selected =
     \<lparr>nodes = [node_a, node_b], groupBoxes = [0, 1],
      objects = [0 \<mapsto> (makeGroupBox node_a)\<lparr>checkbox := True\<rparr>,
                 1 \<mapsto> (makeGroupBox node_b)\<lparr>checkbox := True\<rparr>],
      created = 2, deferred = [], toolbar_disabled = False, window_disabled = False\<rparr>"
  by (simp add: window_ab_selected_def toggleSelection_def addNodes_def addGroupBox_def init_def
      node_a_def node_b_def eval_nat_numeral fun_upd_twist)

text \<open>
  Claim C1 fails of the code.  The loop of \<^verbatim>\<open>machineControl\<close> runs over
  \<^verbatim>\<open>self.groupBoxes\<close> while \<^verbatim>\<open>removeGroupBox\<close> takes the current box out of that very
  list, so the box after a removed box is passed over.  With the two nodes
  \<^verbatim>\<open>10.0.0.5\<close> and \<^verbatim>\<open>10.0.0.2\<close> both selected and every request answered, the command
  reaches the first node only: the second stays in the registry, still selected, though
  its request would have been answered.
\<close>

theorem machineControl_skips_next_selected:
  "map property_address (snapshot window_ab_selected) = [''10.0.0.5'', ''10.0.0.2''] \<and>
   map checkbox (snapshot window_ab_selected) = [True, True] \<and>
   (\<forall>api. http_post all_answer api ''reboot'' = None) \<and>
   (\<exists>s'. machineControl all_answer ''reboot'' window_ab_selected = Inr s' \<and>
      nodes s' = [node_b] \<and> groupBoxes s' = [1] \<and>
      map property_address (snapshot s') = [''10.0.0.2''] \<and>
      map checkbox (snapshot s') = [True])"
  by (simp add: window_ab_selected machineControl_def disableGroupBoxes_def
      machineControl_loop.simps removeGroupBox_def remove_node_def all_answer_def
      snapshot_def map_filter_simps makeGroupBox_def node_a_def node_b_def eval_nat_numeral)

text \<open>
  The example of the specification comes out as specified: of three nodes with the first
  and the third selected, where the first answers and the third does not, the second and
  the third are left, the third still selected.  (The second box is passed over by the
  loop; it is not selected.)
\<close>

lemma machineControl_spec_example:
  "map property_address (snapshot window_abc_ac_selected) = [''10.0.0.5'', ''10.0.0.2'', ''10.0.0.9''] \<and>
   map checkbox (snapshot window_abc_ac_selected) = [True, False, True] \<and>
   (\<exists>s'. machineControl only_a_answers ''reboot'' window_abc_ac_selected = Inr s' \<and>
      nodes s' = [node_b, node_c] \<and> groupBoxes s' = [1, 2] \<and>
      map property_address (snapshot s') = [''10.0.0.2'', ''10.0.0.9''] \<and>
      map checkbox (snapshot s') = [False, True])"
  by (simp add: window_abc_ac_selected_def window_abc machineControl_def disableGroupBoxes_def
      machineControl_loop.simps removeGroupBox_def remove_node_def only_a_answers_def
      machine_control_api_def str_int_5000
      snapshot_def map_filter_simps makeGroupBox_def node_a_def node_b_def node_c_def
      eval_nat_numeral)

end
